theory Spec2Isabelle
  imports Main "HOL-Library.AList"
begin

section \<open>Data model of enhanced-console.js\<close>

text \<open>
  The five console methods that \<open>enhance\<close> replaces, in the order of the array literal
  \<^verbatim>\<open>['log', 'warn', 'error', 'info', 'debug']\<close>.
\<close>

datatype method_name = Log | Warn | Err | Info | Debug

definition tracked :: "method_name list" where
  "tracked = [Log, Warn, Err, Info, Debug]"

text \<open>
  JavaScript values as far as the code inspects them: \<open>processLogEntry\<close> looks at
  \<^verbatim>\<open>typeof lastArg\<close> and at \<^verbatim>\<open>lastArg !== null\<close> only. An \<open>Error\<close> object is kept
  apart from plain objects so that thrown values stay readable; its \<^verbatim>\<open>typeof\<close> is
  \<^verbatim>\<open>'object'\<close> all the same.
\<close>

datatype jsval =
    JUndefined
  | JNull
  | JBool bool
  | JNum int
  | JStr string
  | JFunction nat
  | JError string
  | JObj "(string \<times> jsval) list"

datatype jstype = TUndefined | TObject | TBoolean | TNumber | TString | TFunction

fun typeof :: "jsval \<Rightarrow> jstype" where
  "typeof JUndefined = TUndefined"
| "typeof JNull = TObject"
| "typeof (JBool b) = TBoolean"
| "typeof (JNum n) = TNumber"
| "typeof (JStr s) = TString"
| "typeof (JFunction k) = TFunction"
| "typeof (JError s) = TObject"
| "typeof (JObj kvs) = TObject"

text \<open>
  Function objects compared by reference. \<open>Native k\<close> is a function of the host (a console
  method as the page found it); \<open>Wrapper original m\<close> is the arrow function that
  \<open>enhance\<close> installs for method \<open>m\<close>, closing over \<^verbatim>\<open>original\<close>.
\<close>

datatype fn = Native nat | Wrapper fn method_name

fun is_wrapper :: "fn \<Rightarrow> bool" where
  "is_wrapper (Native k) = False"
| "is_wrapper (Wrapper f m) = True"

text \<open>A log entry \<^verbatim>\<open>{ method, args, stack }\<close>; \<open>stack = None\<close> is \<^verbatim>\<open>undefined\<close>
  (the captured stack had fewer than three lines).\<close>

record entry =
  method_of :: method_name
  args :: "jsval list"
  stack :: "string option"

datatype consumer = Consumer nat

datatype rawmap = RawMap nat

text \<open>The result of \<^verbatim>\<open>consumer.originalPositionFor\<close>; \<open>None\<close> is \<^verbatim>\<open>null\<close>. Line and
  column are kept as the text the template literal prints.\<close>

record position =
  source :: "string option"
  line :: string
  column :: string
  name :: "string option"

text \<open>\<^verbatim>\<open>this.options\<close>, after the constructor has merged the defaults.\<close>

record options =
  batchSize :: int
  flushInterval :: int
  maxQueueSize :: int
  sourceMapEnabled :: bool
  useCache :: bool
  cacheKey :: string
  idleTimeout :: int

definition default_options :: options where
  "default_options = \<lparr> batchSize = 10, flushInterval = 1000, maxQueueSize = 1000,
     sourceMapEnabled = True, useCache = True, cacheKey = ''source-map-cache'',
     idleTimeout = 1000 \<rparr>"

text \<open>What \<^verbatim>\<open>fetch\<close> gives for a URL: a rejected promise, or a response with its
  \<^verbatim>\<open>ok\<close> flag and the value of \<^verbatim>\<open>response.json()\<close> (\<open>None\<close> when that rejects).\<close>

datatype response = NetworkError | Resp bool "rawmap option"

text \<open>What \<^verbatim>\<open>new Error().stack.split('\n')[2]\<close> does in one call of a wrapper: it throws
  (no \<^verbatim>\<open>stack\<close> property to split), or gives the third line, which may be
  \<^verbatim>\<open>undefined\<close>.\<close>

datatype capture = StackThrows | StackLine "string option"

text \<open>
  The host the code runs in. What the code reads from its surroundings and cannot change
  is a field here:
  \<^item> \<open>hasIdleCallback\<close>: \<^verbatim>\<open>'requestIdleCallback' in window\<close>;
  \<^item> \<open>hasMicrotask\<close>: \<^verbatim>\<open>queueMicrotask\<close> is defined (otherwise the call is a ReferenceError);
  \<^item> \<open>cachesInWindow\<close>: \<^verbatim>\<open>'caches' in window\<close>;
  \<^item> \<open>net\<close>: the answer of \<^verbatim>\<open>fetch\<close>;
  \<^item> \<open>putFails\<close>: \<^verbatim>\<open>cache.put\<close> rejects for this request URL;
  \<^item> \<open>construct\<close>: \<^verbatim>\<open>new sourceMap.SourceMapConsumer(sourceMap)\<close>, \<open>None\<close> when it throws.
    The constructor is looked up on the parsed object itself, so what it yields is a matter
    of the host's data;
  \<^item> \<open>frameMatch\<close>: the match of the regular expression
    \<^verbatim>\<open>/at\s+(.+?)\s+\((.+):(\d+):(\d+)\)/\<close> on a frame, giving function name, file URL,
    line and column. The regular-expression engine is the host's;
  \<^item> \<open>positionFor\<close>: \<^verbatim>\<open>consumer.originalPositionFor\<close>, \<open>None\<close> when it throws;
  \<^item> \<open>selfCapture\<close>: what the stack capture gives when a wrapper is reached from the
    enhancer's own code (its \<^verbatim>\<open>console.error\<close> calls, or a recorded original that is
    itself a wrapper).
\<close>

record host =
  hasIdleCallback :: bool
  hasMicrotask :: bool
  cachesInWindow :: bool
  net :: "string \<Rightarrow> response"
  putFails :: "string \<Rightarrow> bool"
  construct :: "rawmap \<Rightarrow> consumer option"
  frameMatch :: "string \<Rightarrow> (string \<times> string \<times> string \<times> string) option"
  positionFor :: "consumer \<Rightarrow> string \<Rightarrow> string \<Rightarrow> position option"
  selfCapture :: capture

datatype task = IdleTask | MicroTask

datatype ioevent = CacheOpen string | CacheMatch string | Fetch string | CachePut string

text \<open>How the promise of one load ended: fulfilled with a consumer or \<^verbatim>\<open>null\<close>, or
  rejected.\<close>

datatype settlement = Fulfilled "consumer option" | Rejected jsval

text \<open>
  The enhancer instance (the first seven fields, named as in the constructor; the JavaScript
  \<open>Map\<close>s are association lists in insertion order) together with the part of the page it
  acts on: the console object, the running interval timers, the callbacks handed to
  \<^verbatim>\<open>requestIdleCallback\<close> or \<^verbatim>\<open>queueMicrotask\<close> and not yet run, the batches spliced off
  the queue whose \<^verbatim>\<open>Promise.all\<close> has not settled, the calls that reached a native console
  function, the cache and network requests made, the platform cache store, the
  consumers destroyed, the load promises whose body is still running (with their file URL)
  and the load promises that have settled.
\<close>

record world =
  sourceMapCache :: "(string \<times> consumer) list"
  logQueue :: "entry list"
  isProcessing :: bool
  opts :: options
  originalMethods :: "(method_name \<times> fn) list"
  pendingSourceMaps :: "(string \<times> nat) list"
  flushInterval_handle :: "nat option"
  console :: "method_name \<Rightarrow> fn"
  timers :: "nat list"
  tasks :: "task list"
  inFlight :: "entry list list"
  out :: "(nat \<times> jsval list) list"
  io :: "ioevent list"
  cacheStore :: "((string \<times> string) \<times> rawmap) list"
  destroyed :: "consumer list"
  loads :: "(nat \<times> string) list"
  settledLoads :: "(nat \<times> settlement) list"
  nextId :: nat

text \<open>The constructor, on a page whose console is \<open>c\<close> and whose cache store is \<open>cs\<close>.\<close>

definition AsyncConsoleEnhancer ::
  "options \<Rightarrow> (method_name \<Rightarrow> fn) \<Rightarrow> ((string \<times> string) \<times> rawmap) list \<Rightarrow> world" where
  "AsyncConsoleEnhancer os c cs =
     \<lparr> sourceMapCache = [], logQueue = [], isProcessing = False, opts = os,
       originalMethods = [], pendingSourceMaps = [], flushInterval_handle = None,
       console = c, timers = [], tasks = [], inFlight = [], out = [], io = [],
       cacheStore = cs, destroyed = [], loads = [], settledLoads = [], nextId = 0 \<rparr>"

text \<open>A synchronous call either returns or throws; both leave a state behind.\<close>

datatype outcome = Returns world | Throws jsval world

section \<open>Scheduling and the replaced console methods\<close>

text \<open>\<open>scheduleQueueProcessing\<close> hands \<^verbatim>\<open>() => this.processQueue()\<close> to the idle-callback
  facility when the page has one and to \<^verbatim>\<open>queueMicrotask\<close> otherwise; where that is not
  defined either, the call throws.\<close>

definition scheduleQueueProcessing :: "host \<Rightarrow> world \<Rightarrow> outcome" where
  "scheduleQueueProcessing h w =
     (if hasIdleCallback h then Returns (w\<lparr>tasks := tasks w @ [IdleTask]\<rparr>)
      else if hasMicrotask h then Returns (w\<lparr>tasks := tasks w @ [MicroTask]\<rparr>)
      else Throws (JError ''ReferenceError: queueMicrotask is not defined'') w)"

definition setupInterval :: "world \<Rightarrow> world" where
  "setupInterval w =
     w\<lparr>flushInterval_handle := Some (nextId w), timers := timers w @ [nextId w],
       nextId := Suc (nextId w)\<rparr>"

definition queue_full_marker :: jsval where
  "queue_full_marker = JStr (CHR 0x0A # ''(Queue full - using original console)'')"

text \<open>
  Calling a function object with arguments \<open>xs\<close>. A native console function prints and
  returns. A wrapper runs the body of the arrow function of \<open>enhance\<close>: the \<^verbatim>\<open>try\<close> block
  is the inner \<open>case\<close>, the \<^verbatim>\<open>catch\<close> block calls \<^verbatim>\<open>original\<close> with the unchanged
  arguments in the state the throw left behind.
\<close>

fun invoke :: "host \<Rightarrow> capture \<Rightarrow> fn \<Rightarrow> jsval list \<Rightarrow> world \<Rightarrow> outcome" where
  "invoke h cap (Native k) xs w = Returns (w\<lparr>out := out w @ [(k, xs)]\<rparr>)"
| "invoke h cap (Wrapper original m) xs w =
     (case (case cap of
              StackThrows \<Rightarrow> Throws (JError ''TypeError: stack is undefined'') w
            | StackLine st \<Rightarrow>
                if int (length (logQueue w)) \<ge> maxQueueSize (opts w)
                then invoke h cap original (xs @ [queue_full_marker]) w
                else scheduleQueueProcessing h
                       (w\<lparr>logQueue := logQueue w @ [\<lparr>method_of = m, args = xs, stack = st\<rparr>]\<rparr>))
      of Returns w' \<Rightarrow> Returns w'
       | Throws err w' \<Rightarrow> invoke h cap original xs w')"

text \<open>One round of the \<^verbatim>\<open>forEach\<close> of \<open>enhance\<close>, and \<open>enhance\<close> itself.\<close>

definition enhance_method :: "method_name \<Rightarrow> world \<Rightarrow> world" where
  "enhance_method m w =
     w\<lparr>originalMethods := AList.update m (console w m) (originalMethods w),
       console := (console w)(m := Wrapper (console w m) m)\<rparr>"

definition enhance :: "world \<Rightarrow> world" where
  "enhance w = setupInterval (fold enhance_method tracked w)"

section \<open>Loading source maps\<close>

text \<open>
  \<open>loadSourceMap\<close> up to the point where it returns its promise: a hit in the memory
  cache, the promise of a load already running, or a new load whose promise \<open>nextId\<close> is
  entered in \<open>pendingSourceMaps\<close>. The body of the new load runs later
  (\<open>loadSourceMap_body\<close>): the page's \<^verbatim>\<open>caches.open\<close> and \<^verbatim>\<open>fetch\<close> return promises, so
  the body never ends before the promise is registered.
\<close>

datatype handle = Hit consumer | Promise nat

definition loadSourceMap :: "string \<Rightarrow> world \<Rightarrow> handle \<times> world" where
  "loadSourceMap fileUrl w =
     (case map_of (sourceMapCache w) fileUrl of
        Some c \<Rightarrow> (Hit c, w)
      | None \<Rightarrow>
         (case map_of (pendingSourceMaps w) fileUrl of
            Some p \<Rightarrow> (Promise p, w)
          | None \<Rightarrow>
              (Promise (nextId w),
               w\<lparr>pendingSourceMaps := AList.update fileUrl (nextId w) (pendingSourceMaps w),
                 loads := loads w @ [(nextId w, fileUrl)],
                 nextId := Suc (nextId w)\<rparr>)))"

definition mapUrl :: "string \<Rightarrow> string" where
  "mapUrl fileUrl = fileUrl @ ''.map''"

text \<open>Lines 68 to 86: the network load inside the \<^verbatim>\<open>try\<close> block. \<open>Inl\<close> is a throw,
  caught by the \<^verbatim>\<open>catch\<close> of the body.\<close>

definition loadFromNetwork :: "host \<Rightarrow> string \<Rightarrow> world \<Rightarrow> (jsval \<times> world) + (consumer \<times> world)" where
  "loadFromNetwork h fileUrl w =
     (let w1 = w\<lparr>io := io w @ [Fetch (mapUrl fileUrl)]\<rparr> in
      case net h (mapUrl fileUrl) of
        NetworkError \<Rightarrow> Inl (JError ''TypeError: Failed to fetch'', w1)
      | Resp ok body \<Rightarrow>
          if \<not> ok then Inl (JError ''Failed to load source map'', w1)
          else
            (case body of
               None \<Rightarrow> Inl (JError ''SyntaxError: response.json()'', w1)
             | Some raw \<Rightarrow>
                (case construct h raw of
                   None \<Rightarrow> Inl (JError ''TypeError: SourceMapConsumer'', w1)
                 | Some c \<Rightarrow>
                    (let w2 = w1\<lparr>sourceMapCache := AList.update fileUrl c (sourceMapCache w1)\<rparr> in
                     if useCache (opts w2) \<and> cachesInWindow h then
                       (let w3 = w2\<lparr>io := io w2 @ [CacheOpen (cacheKey (opts w2)),
                                                     CachePut (mapUrl fileUrl)]\<rparr> in
                        if putFails h (mapUrl fileUrl)
                        then Inl (JError ''cache.put rejected'', w3)
                        else Inr (c, w3\<lparr>cacheStore :=
                                   AList.update (cacheKey (opts w3), mapUrl fileUrl) raw
                                     (cacheStore w3)\<rparr>))
                     else Inr (c, w2)))))"

text \<open>Lines 55 to 86: the whole \<^verbatim>\<open>try\<close> block, the read from the platform cache first.\<close>

definition loadSourceMap_try :: "host \<Rightarrow> string \<Rightarrow> world \<Rightarrow> (jsval \<times> world) + (consumer \<times> world)" where
  "loadSourceMap_try h fileUrl w =
     (if useCache (opts w) \<and> cachesInWindow h then
        (let w1 = w\<lparr>io := io w @ [CacheOpen (cacheKey (opts w)), CacheMatch (mapUrl fileUrl)]\<rparr> in
         case map_of (cacheStore w1) (cacheKey (opts w1), mapUrl fileUrl) of
           Some raw \<Rightarrow>
             (case construct h raw of
                None \<Rightarrow> Inl (JError ''TypeError: SourceMapConsumer'', w1)
              | Some c \<Rightarrow>
                  Inr (c, w1\<lparr>sourceMapCache := AList.update fileUrl c (sourceMapCache w1)\<rparr>))
         | None \<Rightarrow> loadFromNetwork h fileUrl w1)
      else loadFromNetwork h fileUrl w)"

text \<open>The \<^verbatim>\<open>finally\<close> block, and the settling of promise \<open>p\<close> with result \<open>r\<close>.\<close>

definition loadSourceMap_finally :: "nat \<Rightarrow> string \<Rightarrow> settlement \<Rightarrow> world \<Rightarrow> world" where
  "loadSourceMap_finally p fileUrl r w =
     w\<lparr>pendingSourceMaps := AList.delete fileUrl (pendingSourceMaps w),
       loads := removeAll (p, fileUrl) (loads w),
       settledLoads := settledLoads w @ [(p, r)]\<rparr>"

text \<open>
  The body of the load with promise \<open>p\<close>, run to its end. The \<^verbatim>\<open>catch\<close> block calls
  \<^verbatim>\<open>console.error\<close>, which is whatever function the console holds at that moment.
\<close>

definition loadSourceMap_body :: "host \<Rightarrow> nat \<Rightarrow> string \<Rightarrow> world \<Rightarrow> world" where
  "loadSourceMap_body h p fileUrl w =
     (case loadSourceMap_try h fileUrl w of
        Inr (c, w1) \<Rightarrow> loadSourceMap_finally p fileUrl (Fulfilled (Some c)) w1
      | Inl (err, w1) \<Rightarrow>
          (case invoke h (selfCapture h) (console w1 Err)
                  [JStr ''Error loading source map:'', err] w1 of
             Returns w2 \<Rightarrow> loadSourceMap_finally p fileUrl (Fulfilled None) w2
           | Throws e2 w2 \<Rightarrow> loadSourceMap_finally p fileUrl (Rejected e2) w2))"

section \<open>Rewriting the location and emitting one entry\<close>

text \<open>
  Where \<open>getOriginalLocation\<close> stands when it first gives up control: it has returned the
  frame (\<open>Ready\<close>; the frame is \<^verbatim>\<open>undefined\<close> for \<open>None\<close>), it has thrown
  (\<^verbatim>\<open>frame.match\<close> on \<^verbatim>\<open>undefined\<close>), or it awaits a source map.
\<close>

datatype wait =
    Ready "string option"
  | Rejects jsval
  | Awaiting string string string string handle

definition getOriginalLocation_start :: "host \<Rightarrow> string option \<Rightarrow> world \<Rightarrow> wait \<times> world" where
  "getOriginalLocation_start h frame w =
     (if \<not> sourceMapEnabled (opts w) then (Ready frame, w)
      else
        (case frame of
           None \<Rightarrow> (Rejects (JError ''TypeError: frame is undefined''), w)
         | Some fr \<Rightarrow>
            (case frameMatch h fr of
               None \<Rightarrow> (Ready frame, w)
             | Some (fnName, fileUrl, ln, col) \<Rightarrow>
                 (let (promise, w1) = loadSourceMap fileUrl w
                  in (Awaiting fr fnName ln col promise, w1)))))"

text \<open>The rest of \<open>getOriginalLocation\<close> once the consumer (or \<^verbatim>\<open>null\<close>) is there:
  \<open>Inl\<close> is a throw, \<open>Inr\<close> the string returned. An empty string is falsy, as
  \<^verbatim>\<open>null\<close> is.\<close>

definition getOriginalLocation_resume ::
  "host \<Rightarrow> string \<Rightarrow> string \<Rightarrow> string \<Rightarrow> string \<Rightarrow> consumer option \<Rightarrow> jsval + string" where
  "getOriginalLocation_resume h fr fnName ln col co =
     (case co of
        None \<Rightarrow> Inr fr
      | Some c \<Rightarrow>
         (case positionFor h c ln col of
            None \<Rightarrow> Inl (JError ''originalPositionFor threw'')
          | Some original \<Rightarrow>
             (case source original of
                None \<Rightarrow> Inr fr
              | Some src \<Rightarrow>
                  if src = [] then Inr fr
                  else Inr (''    at '' @
                    (case name original of None \<Rightarrow> fnName
                     | Some n \<Rightarrow> if n = [] then fnName else n) @
                    '' ('' @ src @ '':'' @ line original @ '':'' @ column original @ '')''))))"

text \<open>What an entry's \<^verbatim>\<open>await this.getOriginalLocation(stack)\<close> yields in state \<open>w\<close>:
  a location, a rejection, or nothing yet (the promise awaited has not settled).\<close>

datatype located = Located jsval | Failed jsval | Unsettled

definition frame_value :: "string option \<Rightarrow> jsval" where
  "frame_value frame = (case frame of None \<Rightarrow> JUndefined | Some fr \<Rightarrow> JStr fr)"

definition of_resume :: "jsval + string \<Rightarrow> located" where
  "of_resume r = (case r of Inl err \<Rightarrow> Failed err | Inr s \<Rightarrow> Located (JStr s))"

definition resolve_wait :: "host \<Rightarrow> wait \<Rightarrow> world \<Rightarrow> located" where
  "resolve_wait h wt w =
     (case wt of
        Ready frame \<Rightarrow> Located (frame_value frame)
      | Rejects err \<Rightarrow> Failed err
      | Awaiting fr fnName ln col promise \<Rightarrow>
         (case promise of
            Hit c \<Rightarrow> of_resume (getOriginalLocation_resume h fr fnName ln col (Some c))
          | Promise p \<Rightarrow>
             (case map_of (settledLoads w) p of
                None \<Rightarrow> Unsettled
              | Some (Rejected err) \<Rightarrow> Failed err
              | Some (Fulfilled co) \<Rightarrow>
                  of_resume (getOriginalLocation_resume h fr fnName ln col co))))"

text \<open>String concatenation \<^verbatim>\<open>'\n' + originalLocation\<close>.\<close>

definition newline_plus :: "jsval \<Rightarrow> jsval" where
  "newline_plus loc =
     JStr (CHR 0x0A # (case loc of JStr s \<Rightarrow> s | _ \<Rightarrow> ''undefined''))"

text \<open>Lines 135 to 145: \<^verbatim>\<open>args[args.length - 1]\<close> is \<^verbatim>\<open>undefined\<close> for an empty
  array.\<close>

definition lastArg :: "jsval list \<Rightarrow> jsval" where
  "lastArg xs = (if xs = [] then JUndefined else last xs)"

definition enhancedArgs :: "jsval list \<Rightarrow> jsval \<Rightarrow> jsval list" where
  "enhancedArgs xs loc =
     (if typeof (lastArg xs) = TString then xs @ [newline_plus loc]
      else if typeof (lastArg xs) = TObject \<and> lastArg xs \<noteq> JNull
      then xs @ [JObj [(''location'', loc)]]
      else xs @ [loc])"

text \<open>\<^verbatim>\<open>this.originalMethods.get(method).apply(console, xs)\<close>: a TypeError when the
  registry has no such method.\<close>

definition applyOriginal :: "host \<Rightarrow> method_name \<Rightarrow> jsval list \<Rightarrow> world \<Rightarrow> outcome" where
  "applyOriginal h m xs w =
     (case map_of (originalMethods w) m of
        None \<Rightarrow> Throws (JError ''TypeError: undefined has no apply'') w
      | Some f \<Rightarrow> invoke h (selfCapture h) f xs w)"

text \<open>\<open>processLogEntry\<close> from its \<^verbatim>\<open>await\<close> on: \<open>Throws\<close> means the promise it returns
  is rejected.\<close>

definition processLogEntry_resume :: "host \<Rightarrow> entry \<Rightarrow> jsval + jsval \<Rightarrow> world \<Rightarrow> outcome" where
  "processLogEntry_resume h ent loc w =
     (case (case loc of
              Inl err \<Rightarrow> Throws err w
            | Inr originalLocation \<Rightarrow>
                applyOriginal h (method_of ent) (enhancedArgs (args ent) originalLocation) w)
      of Returns w1 \<Rightarrow> Returns w1
       | Throws err w1 \<Rightarrow> applyOriginal h (method_of ent) (args ent) w1)"

section \<open>Draining the queue\<close>

text \<open>An asynchronous function's promise is fulfilled, is rejected, or never settles.\<close>

datatype async = Resolves world | RejectsWith jsval world | Never world

text \<open>\<^verbatim>\<open>splice(0, batchSize)\<close> removes no more than the array holds and nothing for a
  count below one.\<close>

definition splice_count :: "int \<Rightarrow> nat" where
  "splice_count n = nat (max 0 n)"

text \<open>Lines 159 to 162 of \<open>processQueue\<close>: the guard, the flag, the batch taken off the
  front of the queue. \<open>None\<close> is the early \<^verbatim>\<open>return\<close>.\<close>

definition processQueue_begin :: "world \<Rightarrow> entry list option \<times> world" where
  "processQueue_begin w =
     (if isProcessing w \<or> length (logQueue w) = 0 then (None, w)
      else (Some (take (splice_count (batchSize (opts w))) (logQueue w)),
            w\<lparr>isProcessing := True,
              logQueue := drop (splice_count (batchSize (opts w))) (logQueue w)\<rparr>))"

text \<open>
  \<^verbatim>\<open>batch.map(entry => this.processLogEntry(entry))\<close> starts every entry in turn, each
  running up to its first \<^verbatim>\<open>await\<close>; then the loads that were started run; then every
  entry resumes. The entries resume here in batch order; the page may resume them in
  another order.
\<close>

fun start_batch :: "host \<Rightarrow> entry list \<Rightarrow> world \<Rightarrow> (entry \<times> wait) list \<times> world" where
  "start_batch h [] w = ([], w)"
| "start_batch h (ent # rest) w =
     (let (wt, w1) = getOriginalLocation_start h (stack ent) w;
          (waits, w2) = start_batch h rest w1
      in ((ent, wt) # waits, w2))"

definition run_loads :: "host \<Rightarrow> world \<Rightarrow> world" where
  "run_loads h w = fold (\<lambda>(p, fileUrl). loadSourceMap_body h p fileUrl) (loads w) w"

definition processLogEntry_end :: "host \<Rightarrow> entry \<Rightarrow> wait \<Rightarrow> world \<Rightarrow> outcome option" where
  "processLogEntry_end h ent wt w =
     (case resolve_wait h wt w of
        Unsettled \<Rightarrow> None
      | Located loc \<Rightarrow> Some (processLogEntry_resume h ent (Inr loc) w)
      | Failed err \<Rightarrow> Some (processLogEntry_resume h ent (Inl err) w))"

text \<open>The rejections of the batch in order, whether some entry never settles, and the
  state after all the others have.\<close>

fun resume_batch :: "host \<Rightarrow> (entry \<times> wait) list \<Rightarrow> world \<Rightarrow> jsval list \<times> bool \<times> world" where
  "resume_batch h [] w = ([], False, w)"
| "resume_batch h ((ent, wt) # rest) w =
     (case processLogEntry_end h ent wt w of
        None \<Rightarrow> (let (errs, hung, w2) = resume_batch h rest w in (errs, True, w2))
      | Some (Returns w1) \<Rightarrow> resume_batch h rest w1
      | Some (Throws err w1) \<Rightarrow>
          (let (errs, hung, w2) = resume_batch h rest w1 in (err # errs, hung, w2)))"

text \<open>Lines 169 to 175: the \<^verbatim>\<open>finally\<close> block and the rescheduling.\<close>

definition processQueue_finally :: "host \<Rightarrow> world \<Rightarrow> async" where
  "processQueue_finally h w =
     (let w1 = w\<lparr>isProcessing := False\<rparr> in
      if length (logQueue w1) > 0 then
        (case scheduleQueueProcessing h w1 of
           Returns w2 \<Rightarrow> Resolves w2
         | Throws err w2 \<Rightarrow> RejectsWith err w2)
      else Resolves w1)"

text \<open>Lines 164 to 175, for the batch just taken: \<^verbatim>\<open>Promise.all\<close> rejects with the
  first rejection, and never settles if an entry never does and none rejects.\<close>

definition processQueue_rest :: "host \<Rightarrow> entry list \<Rightarrow> world \<Rightarrow> async" where
  "processQueue_rest h batch w =
     (let (waits, w1) = start_batch h batch w;
          w2 = run_loads h w1;
          (errs, hung, w3) = resume_batch h waits w2
      in case errs of
           err # _ \<Rightarrow>
             (case invoke h (selfCapture h) (console w3 Err)
                     [JStr ''Error processing log queue:'', err] w3 of
                Returns w4 \<Rightarrow> processQueue_finally h w4
              | Throws e2 w4 \<Rightarrow> RejectsWith e2 (w4\<lparr>isProcessing := False\<rparr>))
         | [] \<Rightarrow> if hung then Never w3 else processQueue_finally h w3)"

definition processQueue :: "host \<Rightarrow> world \<Rightarrow> async" where
  "processQueue h w =
     (case processQueue_begin w of
        (None, w1) \<Rightarrow> Resolves w1
      | (Some batch, w1) \<Rightarrow> processQueue_rest h batch w1)"

section \<open>Cleanup\<close>

definition clearInterval :: "world \<Rightarrow> world" where
  "clearInterval w =
     w\<lparr>timers := (case flushInterval_handle w of
                    None \<Rightarrow> timers w
                  | Some t \<Rightarrow> removeAll t (timers w))\<rparr>"

text \<open>A scheduled callback starts to run: \<open>processQueue\<close> up to its \<^verbatim>\<open>await\<close>, the batch
  left in flight.\<close>

definition begin_task :: "world \<Rightarrow> world" where
  "begin_task w =
     (case processQueue_begin w of
        (None, w1) \<Rightarrow> w1
      | (Some batch, w1) \<Rightarrow> w1\<lparr>inFlight := inFlight w1 @ [batch]\<rparr>)"

text \<open>The callbacks given to \<^verbatim>\<open>queueMicrotask\<close> run before the continuation of an
  \<^verbatim>\<open>await\<close> that is queued after them.\<close>

definition microtask_checkpoint :: "world \<Rightarrow> world" where
  "microtask_checkpoint w =
     fold (\<lambda>t. begin_task) (filter (\<lambda>t. t = MicroTask) (tasks w))
       (w\<lparr>tasks := filter (\<lambda>t. t \<noteq> MicroTask) (tasks w)\<rparr>)"

definition restoreOriginals :: "world \<Rightarrow> world" where
  "restoreOriginals w =
     fold (\<lambda>(m, original) v. v\<lparr>console := (console v)(m := original)\<rparr>) (originalMethods w) w"

text \<open>Lines 248 to 259: what \<open>cleanup\<close> does after its \<^verbatim>\<open>await\<close>.\<close>

definition cleanup_resume :: "world \<Rightarrow> world" where
  "cleanup_resume w =
     (restoreOriginals
        (w\<lparr>destroyed := destroyed w @ map snd (sourceMapCache w),
          sourceMapCache := [], pendingSourceMaps := []\<rparr>))
     \<lparr>originalMethods := []\<rparr>"

definition cleanup :: "host \<Rightarrow> world \<Rightarrow> async" where
  "cleanup h w =
     (let w1 = clearInterval w in
      if length (logQueue w1) > 0 then
        (case processQueue h w1 of
           Resolves w2 \<Rightarrow> Resolves (cleanup_resume (microtask_checkpoint w2))
         | RejectsWith err w2 \<Rightarrow> RejectsWith err w2
         | Never w2 \<Rightarrow> Never w2)
      else Resolves (cleanup_resume w1))"

section \<open>Runs of the page\<close>

text \<open>
  What can happen on the page, one thing at a time: the application calls a console
  method (with what the stack capture will give in that call), the interval timer fires,
  the oldest scheduled callback runs, the oldest batch in flight runs to its end, and the
  application calls \<open>enhance\<close> or \<open>cleanup\<close>. A throw that reaches the application and a
  rejected promise leave the state they reached.
\<close>

datatype event =
    Call method_name "jsval list" capture
  | Tick
  | RunTask
  | Settle
  | Enhance
  | Cleanup

fun world_of :: "outcome \<Rightarrow> world" where
  "world_of (Returns w) = w"
| "world_of (Throws err w) = w"

fun async_world :: "async \<Rightarrow> world" where
  "async_world (Resolves w) = w"
| "async_world (RejectsWith err w) = w"
| "async_world (Never w) = w"

fun step :: "host \<Rightarrow> event \<Rightarrow> world \<Rightarrow> world" where
  "step h (Call m xs cap) w = world_of (invoke h cap (console w m) xs w)"
| "step h Tick w =
     (if timers w \<noteq> [] \<and> length (logQueue w) > 0 then begin_task w else w)"
| "step h RunTask w =
     (case tasks w of [] \<Rightarrow> w | t # ts \<Rightarrow> begin_task (w\<lparr>tasks := ts\<rparr>))"
| "step h Settle w =
     (case inFlight w of
        [] \<Rightarrow> w
      | batch # bs \<Rightarrow> async_world (processQueue_rest h batch (w\<lparr>inFlight := bs\<rparr>)))"
| "step h Enhance w = enhance w"
| "step h Cleanup w = async_world (cleanup h w)"

definition run :: "host \<Rightarrow> event list \<Rightarrow> world \<Rightarrow> world" where
  "run h evs w = fold (step h) evs w"

section \<open>Notions used in the statements\<close>

text \<open>The state a \<^verbatim>\<open>try\<close> block of the load leaves, whether it threw or not, and the
  consumer it returned, if it did.\<close>

definition try_world :: "(jsval \<times> world) + (consumer \<times> world) \<Rightarrow> world" where
  "try_world r = (case r of Inl (err, w) \<Rightarrow> w | Inr (c, w) \<Rightarrow> w)"

definition try_consumer :: "(jsval \<times> world) + (consumer \<times> world) \<Rightarrow> consumer option" where
  "try_consumer r = (case r of Inl ew \<Rightarrow> None | Inr (c, w) \<Rightarrow> Some c)"

text \<open>
  \<open>evolves w w'\<close>: from \<open>w\<close> to \<open>w'\<close> the options, the registry of originals, the
  console and the interval timers are unchanged, and the queue has not grown or is within
  \<open>maxQueueSize\<close>.
\<close>

definition evolves :: "world \<Rightarrow> world \<Rightarrow> bool" where
  "evolves w w' =
     (opts w' = opts w \<and> originalMethods w' = originalMethods w \<and> console w' = console w \<and>
      timers w' = timers w \<and> flushInterval_handle w' = flushInterval_handle w \<and>
      (length (logQueue w') \<le> length (logQueue w) \<or>
       int (length (logQueue w')) \<le> maxQueueSize (opts w)))"

text \<open>The location argument in the words of the specification: a string last argument
  gets \<^verbatim>\<open>"\n" + location\<close>, a non-null object gets \<^verbatim>\<open>{ location }\<close>, anything else
  (and an empty argument list) the location itself.\<close>

fun location_for :: "jsval \<Rightarrow> jsval \<Rightarrow> jsval" where
  "location_for (JStr s) loc = newline_plus loc"
| "location_for (JObj kvs) loc = JObj [(''location'', loc)]"
| "location_for (JError e) loc = JObj [(''location'', loc)]"
| "location_for v loc = loc"

definition location_argument :: "jsval list \<Rightarrow> jsval \<Rightarrow> jsval" where
  "location_argument xs loc = (if xs = [] then loc else location_for (last xs) loc)"

text \<open>The conditions of a network load that succeeds: nothing for the URL in the memory cache
  or in the platform cache store, a response that is ok, and a map that parses to \<open>c\<close>.
  And the condition under which the write to the platform cache store is attempted and
  rejects.\<close>

definition network_load_succeeds :: "host \<Rightarrow> string \<Rightarrow> consumer \<Rightarrow> world \<Rightarrow> bool" where
  "network_load_succeeds h fileUrl c w =
     (map_of (sourceMapCache w) fileUrl = None \<and>
      map_of (cacheStore w) (cacheKey (opts w), mapUrl fileUrl) = None \<and>
      (\<exists>raw. net h (mapUrl fileUrl) = Resp True (Some raw) \<and> construct h raw = Some c))"

definition cache_write_fails :: "host \<Rightarrow> string \<Rightarrow> world \<Rightarrow> bool" where
  "cache_write_fails h fileUrl w =
     (useCache (opts w) \<and> cachesInWindow h \<and> putFails h (mapUrl fileUrl))"

text \<open>The memory cache holds consumer \<open>c\<close> for the URL and no load for that URL is
  running.\<close>

definition holds_consumer :: "string \<Rightarrow> consumer \<Rightarrow> world \<Rightarrow> bool" where
  "holds_consumer fileUrl c w =
     (map_of (sourceMapCache w) fileUrl = Some c \<and> fileUrl \<notin> snd ` set (loads w))"

text \<open>
  For the sharing of loads: the number of network fetches made so far for the map of a
  file; that an entry's frame names the file; that an entry awaits promise \<open>p\<close>; and that
  the platform cache store is in use and holds the map of the file.
\<close>

definition fetches :: "string \<Rightarrow> world \<Rightarrow> nat" where
  "fetches fileUrl w = length (filter (\<lambda>e. e = Fetch (mapUrl fileUrl)) (io w))"

definition references :: "host \<Rightarrow> string \<Rightarrow> entry \<Rightarrow> bool" where
  "references h fileUrl ent =
     (case stack ent of
        None \<Rightarrow> False
      | Some fr \<Rightarrow>
         (case frameMatch h fr of
            None \<Rightarrow> False
          | Some (fnName, v, ln, col) \<Rightarrow> v = fileUrl))"

fun awaits :: "nat \<Rightarrow> wait \<Rightarrow> bool" where
  "awaits p (Awaiting fr fnName ln col (Promise q)) = (q = p)"
| "awaits p wt = False"

definition in_platform_cache :: "host \<Rightarrow> string \<Rightarrow> world \<Rightarrow> bool" where
  "in_platform_cache h fileUrl w =
     (useCache (opts w) \<and> cachesInWindow h \<and>
      map_of (cacheStore w) (cacheKey (opts w), mapUrl fileUrl) \<noteq> None)"

text \<open>
  What the entries of a batch are emitted with, entry by entry. \<open>resolution\<close> is what a
  load of the file's map gives for a batch started in \<open>w\<close> (the cached consumer, or the
  result of the \<^verbatim>\<open>try\<close> block; \<^verbatim>\<open>null\<close> when it throws); \<open>location_of\<close> is what
  \<open>getOriginalLocation\<close> then yields for the entry; \<open>emission\<close> is the native function
  called and its arguments.
\<close>

definition resolution :: "host \<Rightarrow> world \<Rightarrow> string \<Rightarrow> consumer option" where
  "resolution h w fileUrl =
     (case map_of (sourceMapCache w) fileUrl of
        Some c \<Rightarrow> Some c
      | None \<Rightarrow> try_consumer (loadSourceMap_try h fileUrl w))"

definition location_of :: "host \<Rightarrow> world \<Rightarrow> entry \<Rightarrow> located" where
  "location_of h w ent =
     (if \<not> sourceMapEnabled (opts w) then Located (frame_value (stack ent))
      else
        (case stack ent of
           None \<Rightarrow> Failed (JError ''TypeError: frame is undefined'')
         | Some fr \<Rightarrow>
            (case frameMatch h fr of
               None \<Rightarrow> Located (JStr fr)
             | Some (fnName, fileUrl, ln, col) \<Rightarrow>
                 of_resume (getOriginalLocation_resume h fr fnName ln col
                              (resolution h w fileUrl)))))"

definition native_of :: "world \<Rightarrow> method_name \<Rightarrow> nat" where
  "native_of w m = (case map_of (originalMethods w) m of Some (Native k) \<Rightarrow> k | _ \<Rightarrow> 0)"

definition emission :: "host \<Rightarrow> world \<Rightarrow> entry \<Rightarrow> nat \<times> jsval list" where
  "emission h w ent =
     (native_of w (method_of ent),
      case location_of h w ent of
        Located loc \<Rightarrow> enhancedArgs (args ent) loc
      | Failed err \<Rightarrow> args ent
      | Unsettled \<Rightarrow> args ent)"

text \<open>
  For the proof about a batch: \<open>wait_ok\<close> says that the entry waits for what its frame
  calls for, \<open>phase1\<close> relates the state while the entries of a batch are started to the
  state \<open>w0\<close> in which the batch began, \<open>extends\<close> says that a registry of pending loads
  has only gained entries.
\<close>

definition wait_ok :: "host \<Rightarrow> world \<Rightarrow> (string \<times> nat) list \<Rightarrow> entry \<Rightarrow> wait \<Rightarrow> bool" where
  "wait_ok h w0 pending ent wt =
     (if \<not> sourceMapEnabled (opts w0) then wt = Ready (stack ent)
      else
        (case stack ent of
           None \<Rightarrow> wt = Rejects (JError ''TypeError: frame is undefined'')
         | Some fr \<Rightarrow>
            (case frameMatch h fr of
               None \<Rightarrow> wt = Ready (Some fr)
             | Some (fnName, fileUrl, ln, col) \<Rightarrow>
                (case map_of (sourceMapCache w0) fileUrl of
                   Some c \<Rightarrow> wt = Awaiting fr fnName ln col (Hit c)
                 | None \<Rightarrow>
                     (\<exists>p. wt = Awaiting fr fnName ln col (Promise p) \<and>
                          map_of pending fileUrl = Some p)))))"

definition phase1 :: "world \<Rightarrow> world \<Rightarrow> bool" where
  "phase1 w0 w =
     (sourceMapCache w = sourceMapCache w0 \<and> opts w = opts w0 \<and>
      cacheStore w = cacheStore w0 \<and> originalMethods w = originalMethods w0 \<and>
      settledLoads w = settledLoads w0 \<and> out w = out w0 \<and> nextId w0 \<le> nextId w \<and>
      loads w = map (\<lambda>(u, p). (p, u)) (pendingSourceMaps w) \<and>
      distinct (map fst (pendingSourceMaps w)) \<and> distinct (map snd (pendingSourceMaps w)) \<and>
      (\<forall>(u, p)\<in>set (pendingSourceMaps w).
          nextId w0 \<le> p \<and> p < nextId w \<and> map_of (sourceMapCache w0) u = None))"

definition extends :: "(string \<times> nat) list \<Rightarrow> (string \<times> nat) list \<Rightarrow> bool" where
  "extends P P' = (\<forall>u p. map_of P u = Some p \<longrightarrow> map_of P' u = Some p)"

text \<open>No load is registered or running and every settled promise is older than \<open>nextId\<close>;
  and two states that agree on loads and promises.\<close>

definition between_batches :: "world \<Rightarrow> bool" where
  "between_batches w =
     (pendingSourceMaps w = [] \<and> loads w = [] \<and>
      (\<forall>p\<in>fst ` set (settledLoads w). p < nextId w))"

definition same_loads :: "world \<Rightarrow> world \<Rightarrow> bool" where
  "same_loads w w' =
     (pendingSourceMaps w' = pendingSourceMaps w \<and> loads w' = loads w \<and>
      settledLoads w' = settledLoads w \<and> nextId w' = nextId w)"

section \<open>A concrete page for the examples\<close>

text \<open>The console as the page found it: five distinct native functions.\<close>

definition host_console :: "method_name \<Rightarrow> fn" where
  "host_console m = Native (case m of Log \<Rightarrow> 0 | Warn \<Rightarrow> 1 | Err \<Rightarrow> 2 | Info \<Rightarrow> 3 | Debug \<Rightarrow> 4)"

text \<open>A browser with idle callbacks and a cache store, in which \<^verbatim>\<open>app.js.map\<close> can be
  fetched and every other request gets a response that is not \<^verbatim>\<open>ok\<close>; the same without
  \<^verbatim>\<open>requestIdleCallback\<close>; without any scheduler; and with a cache store that rejects
  every \<^verbatim>\<open>put\<close>.\<close>

definition browser :: host where
  "browser = \<lparr> hasIdleCallback = True, hasMicrotask = True, cachesInWindow = True,
     net = (\<lambda>u. if u = ''app.js.map'' then Resp True (Some (RawMap 0)) else Resp False None),
     putFails = (\<lambda>u. False),
     construct = (\<lambda>r. Some (Consumer 0)),
     frameMatch = (\<lambda>s. if s = ''at f (app.js:1:2)'' then Some (''f'', ''app.js'', ''1'', ''2'')
                        else if s = ''at g (lib.js:3:4)'' then Some (''g'', ''lib.js'', ''3'', ''4'')
                        else None),
     positionFor = (\<lambda>c l k. Some \<lparr> source = Some ''app.ts'', line = ''12'', column = ''7'', name = None \<rparr>),
     selfCapture = StackLine None \<rparr>"

definition microtask_page :: host where
  "microtask_page = browser\<lparr>hasIdleCallback := False\<rparr>"

definition no_scheduler :: host where
  "no_scheduler = browser\<lparr>hasIdleCallback := False, hasMicrotask := False\<rparr>"

definition put_failing :: host where
  "put_failing = browser\<lparr>putFails := (\<lambda>u. True)\<rparr>"

text \<open>A newly constructed enhancer with the default options, and that enhancer after
  \<open>enhance\<close>.\<close>

definition fresh_page :: world where
  "fresh_page = AsyncConsoleEnhancer default_options host_console []"

definition enhanced_page :: world where
  "enhanced_page = enhance fresh_page"

text \<open>An enhancer with room for one entry, after \<open>enhance\<close> and one
  \<^verbatim>\<open>console.log('a')\<close>.\<close>

definition tiny_options :: options where
  "tiny_options = default_options\<lparr>maxQueueSize := 1\<rparr>"

definition one_logged :: world where
  "one_logged = run browser [Enhance, Call Log [JStr ''a''] (StackLine None)]
                  (AsyncConsoleEnhancer tiny_options host_console [])"

text \<open>One \<^verbatim>\<open>console.log('a')\<close> on the enhanced page, and the state \<open>cleanup\<close> then
  resolves with.\<close>

definition one_call :: "event list" where
  "one_call = [Call Log [JStr ''a''] (StackLine None)]"

definition after_cleanup :: world where
  "after_cleanup = async_world (cleanup browser (run browser one_call enhanced_page))"

text \<open>Two entries pending with \<open>batchSize = 1\<close>, on a page \<open>h\<close>.\<close>

definition two_pending :: "host \<Rightarrow> world" where
  "two_pending h =
     run h [Call Log [JStr ''a''] (StackLine None), Call Log [JStr ''b''] (StackLine None)]
       (enhance (AsyncConsoleEnhancer (default_options\<lparr>batchSize := 1\<rparr>) host_console []))"

text \<open>Two entries logged from the same file; an entry logged from a file whose map the
  server does not have; and one from a file whose map can be fetched.\<close>

definition two_logs_one_file :: "entry list" where
  "two_logs_one_file =
     [\<lparr>method_of = Log, args = [JStr ''a''], stack = Some ''at f (app.js:1:2)''\<rparr>,
      \<lparr>method_of = Warn, args = [JStr ''b''], stack = Some ''at f (app.js:1:2)''\<rparr>]"

definition missing_map_entry :: entry where
  "missing_map_entry = \<lparr>method_of = Log, args = [JStr ''x''], stack = Some ''at g (lib.js:3:4)''\<rparr>"

definition mapped_entry :: entry where
  "mapped_entry = \<lparr>method_of = Warn, args = [JStr ''y''], stack = Some ''at f (app.js:1:2)''\<rparr>"

section \<open>What every operation preserves\<close>

lemma invoke_returns: "\<exists>w'. invoke h cap f xs w = Returns w'"
proof (induction f arbitrary: xs w)
  case (Native k)
  show ?case by simp
next
  case (Wrapper original m)
  show ?case
    using Wrapper.IH by (cases cap) (auto simp: scheduleQueueProcessing_def split: outcome.splits)
qed

lemma evolves_refl [simp]: "evolves w w"
  by (simp add: evolves_def)

lemma evolves_trans: "evolves w w1 \<Longrightarrow> evolves w1 w2 \<Longrightarrow> evolves w w2"
  by (auto simp: evolves_def)

lemma evolves_schedule: "evolves w (world_of (scheduleQueueProcessing h w))"
  by (simp add: scheduleQueueProcessing_def evolves_def)

lemma evolves_invoke: "evolves w (world_of (invoke h cap f xs w))"
proof (induction f arbitrary: xs w)
  case (Native k)
  show ?case by (simp add: evolves_def)
next
  case (Wrapper original m)
  show ?case
  proof (cases cap)
    case StackThrows
    then show ?thesis using Wrapper by simp
  next
    case (StackLine st)
    show ?thesis
    proof (cases "maxQueueSize (opts w) \<le> int (length (logQueue w))")
      case True
      obtain w1 where r: "invoke h cap original (xs @ [queue_full_marker]) w = Returns w1"
        using invoke_returns by blast
      have "evolves w (world_of (invoke h cap original (xs @ [queue_full_marker]) w))"
        using Wrapper by blast
      then show ?thesis using True StackLine r by simp
    next
      case False
      let ?w1 = "w\<lparr>logQueue := logQueue w @ [\<lparr>method_of = m, args = xs, stack = st\<rparr>]\<rparr>"
      have b1: "evolves w ?w1" using False by (simp add: evolves_def)
      have b2: "evolves ?w1 (world_of (scheduleQueueProcessing h ?w1))"
        by (rule evolves_schedule)
      show ?thesis
      proof (cases "scheduleQueueProcessing h ?w1")
        case (Returns w2)
        then show ?thesis using False StackLine evolves_trans[OF b1 b2] by simp
      next
        case (Throws err w2)
        have "evolves w w2" using evolves_trans[OF b1 b2] Throws by simp
        moreover have "evolves w2 (world_of (invoke h cap original xs w2))" using Wrapper.IH .
        ultimately show ?thesis using False StackLine Throws by (auto intro: evolves_trans)
      qed
    qed
  qed
qed

lemma evolves_loadSourceMap: "evolves w (snd (loadSourceMap u w))"
  by (simp add: loadSourceMap_def evolves_def split: option.splits)

lemma evolves_loadFromNetwork: "evolves w (try_world (loadFromNetwork h u w))"
  by (simp add: loadFromNetwork_def try_world_def Let_def evolves_def
      split: response.splits option.splits)

lemma evolves_try: "evolves w (try_world (loadSourceMap_try h u w))"
proof -
  let ?w1 = "w\<lparr>io := io w @ [CacheOpen (cacheKey (opts w)), CacheMatch (mapUrl u)]\<rparr>"
  have a: "evolves w ?w1" by (simp add: evolves_def)
  have b: "evolves ?w1 (try_world (loadFromNetwork h u ?w1))" by (rule evolves_loadFromNetwork)
  have c: "evolves w (try_world (loadFromNetwork h u ?w1))" by (rule evolves_trans[OF a b])
  show ?thesis
    using c evolves_loadFromNetwork[of w h u]
    by (auto simp: loadSourceMap_try_def Let_def try_world_def[of "Inl _"] try_world_def[of "Inr _"]
        evolves_def split: option.splits)
qed

lemma evolves_finally: "evolves w (loadSourceMap_finally p u r w)"
  by (simp add: loadSourceMap_finally_def evolves_def)

lemma evolves_body: "evolves w (loadSourceMap_body h p u w)"
proof (cases "loadSourceMap_try h u w")
  case (Inr cw)
  obtain c w1 where cw: "cw = (c, w1)" by (cases cw)
  have "evolves w w1" using evolves_try[of w h u] Inr cw by (simp add: try_world_def)
  then show ?thesis using Inr cw
    by (auto simp: loadSourceMap_body_def intro: evolves_trans evolves_finally)
next
  case (Inl ew)
  obtain err w1 where ew: "ew = (err, w1)" by (cases ew)
  have a: "evolves w w1" using evolves_try[of w h u] Inl ew by (simp add: try_world_def)
  obtain w2 where r: "invoke h (selfCapture h) (console w1 Err)
                  [JStr ''Error loading source map:'', err] w1 = Returns w2"
    using invoke_returns by blast
  have b: "evolves w1 w2"
    using evolves_invoke[of w1 h "selfCapture h" "console w1 Err" "[JStr ''Error loading source map:'', err]"] r
    by simp
  have "evolves w w2" by (rule evolves_trans[OF a b])
  then show ?thesis using Inl ew r
    by (auto simp: loadSourceMap_body_def intro: evolves_trans evolves_finally)
qed

lemma evolves_start: "evolves w (snd (getOriginalLocation_start h frame w))"
  using evolves_loadSourceMap
  by (auto simp: getOriginalLocation_start_def split: option.splits prod.splits)
     (metis snd_conv)

lemma evolves_start_batch: "evolves w (snd (start_batch h batch w))"
proof (induction batch arbitrary: w)
  case Nil
  show ?case by simp
next
  case (Cons ent rest)
  obtain wt w1 where a: "getOriginalLocation_start h (stack ent) w = (wt, w1)"
    by (cases "getOriginalLocation_start h (stack ent) w")
  obtain waits w2 where b: "start_batch h rest w1 = (waits, w2)"
    by (cases "start_batch h rest w1")
  have "evolves w w1" using evolves_start[of w h "stack ent"] a by simp
  moreover have "evolves w1 w2" using Cons.IH[of w1] b by simp
  ultimately show ?case using a b by (auto intro: evolves_trans)
qed

lemma evolves_fold_body:
  "evolves w (fold (\<lambda>(p, fileUrl). loadSourceMap_body h p fileUrl) ls w)"
proof (induction ls arbitrary: w)
  case Nil
  show ?case by simp
next
  case (Cons a ls)
  obtain p u where a: "a = (p, u)" by (cases a)
  show ?case using Cons.IH[of "loadSourceMap_body h p u w"] evolves_body[of w h p u] a
    by (auto intro: evolves_trans)
qed

lemma evolves_run_loads: "evolves w (run_loads h w)"
  by (simp add: run_loads_def evolves_fold_body)

lemma evolves_applyOriginal: "evolves w (world_of (applyOriginal h m xs w))"
  by (simp add: applyOriginal_def evolves_invoke split: option.splits)

lemma evolves_resume: "evolves w (world_of (processLogEntry_resume h ent loc w))"
proof (cases loc)
  case (Inl err)
  then show ?thesis by (simp add: processLogEntry_resume_def evolves_applyOriginal)
next
  case (Inr l)
  show ?thesis
  proof (cases "applyOriginal h (method_of ent) (enhancedArgs (args ent) l) w")
    case (Returns w1)
    then show ?thesis
      using Inr evolves_applyOriginal[of w h "method_of ent" "enhancedArgs (args ent) l"]
      by (simp add: processLogEntry_resume_def)
  next
    case (Throws err w1)
    have "evolves w w1"
      using Throws evolves_applyOriginal[of w h "method_of ent" "enhancedArgs (args ent) l"] by simp
    then show ?thesis using Inr Throws evolves_applyOriginal[of w1 h "method_of ent" "args ent"]
      by (auto simp: processLogEntry_resume_def intro: evolves_trans)
  qed
qed

lemma evolves_end:
  "processLogEntry_end h ent wt w = Some r \<Longrightarrow> evolves w (world_of r)"
  by (auto simp: processLogEntry_end_def evolves_resume split: located.splits)

lemma evolves_resume_batch: "evolves w (snd (snd (resume_batch h waits w)))"
proof (induction waits arbitrary: w)
  case Nil
  show ?case by simp
next
  case (Cons a waits)
  obtain ent wt where a: "a = (ent, wt)" by (cases a)
  show ?case
  proof (cases "processLogEntry_end h ent wt w")
    case None
    then show ?thesis using a Cons.IH[of w] by (auto split: prod.splits)
  next
    case (Some r)
    have e: "evolves w (world_of r)" using evolves_end[OF Some] .
    show ?thesis
    proof (cases r)
      case (Returns w1)
      then show ?thesis using a Some e Cons.IH[of w1] by (auto intro: evolves_trans)
    next
      case (Throws err w1)
      then show ?thesis using a Some e Cons.IH[of w1]
        by (auto split: prod.splits intro: evolves_trans)
    qed
  qed
qed

lemma evolves_processQueue_finally: "evolves w (async_world (processQueue_finally h w))"
proof -
  let ?w1 = "w\<lparr>isProcessing := False\<rparr>"
  have a: "evolves w ?w1" by (simp add: evolves_def)
  have b: "evolves ?w1 (world_of (scheduleQueueProcessing h ?w1))" by (rule evolves_schedule)
  show ?thesis using a evolves_trans[OF a b]
    by (auto simp: processQueue_finally_def Let_def split: outcome.splits)
qed

lemma evolves_rest: "evolves w (async_world (processQueue_rest h batch w))"
proof -
  obtain waits w1 where a: "start_batch h batch w = (waits, w1)" by (cases "start_batch h batch w")
  obtain errs hung w3 where b: "resume_batch h waits (run_loads h w1) = (errs, hung, w3)"
    by (cases "resume_batch h waits (run_loads h w1)")
  have e1: "evolves w w1" using evolves_start_batch[of w h batch] a by simp
  have e2: "evolves w1 (run_loads h w1)" by (rule evolves_run_loads)
  have e3: "evolves (run_loads h w1) w3" using evolves_resume_batch[of "run_loads h w1" h waits] b by simp
  have e: "evolves w w3" using e1 e2 e3 by (blast intro: evolves_trans)
  show ?thesis
  proof (cases errs)
    case Nil
    then show ?thesis using a b e evolves_processQueue_finally[of w3 h]
      by (auto simp: processQueue_rest_def intro: evolves_trans)
  next
    case (Cons err es)
    obtain w4 where r: "invoke h (selfCapture h) (console w3 Err)
                     [JStr ''Error processing log queue:'', err] w3 = Returns w4"
      using invoke_returns by blast
    have "evolves w3 w4"
      using evolves_invoke[of w3 h "selfCapture h" "console w3 Err" "[JStr ''Error processing log queue:'', err]"] r
      by simp
    then have "evolves w (async_world (processQueue_finally h w4))"
      using e evolves_processQueue_finally[of w4 h] by (blast intro: evolves_trans)
    then show ?thesis using a b Cons r by (simp add: processQueue_rest_def)
  qed
qed

lemma evolves_begin: "evolves w (snd (processQueue_begin w))"
  by (simp add: processQueue_begin_def evolves_def)

lemma evolves_begin_task: "evolves w (begin_task w)"
  using evolves_begin[of w]
  by (auto simp: begin_task_def evolves_def split: prod.splits option.splits)

lemma evolves_processQueue: "evolves w (async_world (processQueue h w))"
  using evolves_begin[of w] evolves_rest
  by (auto simp: processQueue_def split: prod.splits option.splits intro: evolves_trans)

lemma evolves_fold_begin: "evolves w (fold (\<lambda>t. begin_task) ts w)"
proof (induction ts arbitrary: w)
  case Nil
  show ?case by simp
next
  case (Cons t ts)
  show ?case using Cons.IH[of "begin_task w"] evolves_begin_task[of w]
    by (auto intro: evolves_trans)
qed

lemma evolves_checkpoint: "evolves w (microtask_checkpoint w)"
proof -
  have "evolves w (w\<lparr>tasks := filter (\<lambda>t. t \<noteq> MicroTask) (tasks w)\<rparr>)"
    by (simp add: evolves_def)
  then show ?thesis unfolding microtask_checkpoint_def
    by (blast intro: evolves_trans evolves_fold_begin)
qed

section \<open>The queue stays within its bound\<close>

lemma bounded_step:
  assumes "int (length (logQueue w)) \<le> maxQueueSize (opts w)"
  shows "opts (step h ev w) = opts w \<and> int (length (logQueue (step h ev w))) \<le> maxQueueSize (opts w)"
proof -
  have ev: "evolves w w' \<Longrightarrow> opts w' = opts w \<and> int (length (logQueue w')) \<le> maxQueueSize (opts w)" for w'
    using assms by (auto simp: evolves_def)
  show ?thesis
  proof (cases ev)
    case (Call m xs cap)
    then show ?thesis using ev[OF evolves_invoke] by simp
  next
    case Tick
    then show ?thesis using ev[OF evolves_begin_task] assms by simp
  next
    case RunTask
    show ?thesis
    proof (cases "tasks w")
      case Nil
      then show ?thesis using RunTask assms by simp
    next
      case (Cons t ts)
      have "evolves w (w\<lparr>tasks := ts\<rparr>)" by (simp add: evolves_def)
      then have "evolves w (begin_task (w\<lparr>tasks := ts\<rparr>))"
        by (blast intro: evolves_trans evolves_begin_task)
      from ev[OF this] show ?thesis using RunTask Cons by simp
    qed
  next
    case Settle
    show ?thesis
    proof (cases "inFlight w")
      case Nil
      then show ?thesis using Settle assms by simp
    next
      case (Cons b bs)
      have "evolves w (w\<lparr>inFlight := bs\<rparr>)" by (simp add: evolves_def)
      then have "evolves w (async_world (processQueue_rest h b (w\<lparr>inFlight := bs\<rparr>)))"
        by (blast intro: evolves_trans evolves_rest)
      from ev[OF this] show ?thesis using Settle Cons by simp
    qed
  next
    case Enhance
    have "opts (fold enhance_method ms w) = opts w \<and> logQueue (fold enhance_method ms w) = logQueue w" for ms
      by (induction ms arbitrary: w) (simp_all add: enhance_method_def)
    then show ?thesis using Enhance assms by (simp add: enhance_def setupInterval_def)
  next
    case Cleanup
    have r: "opts (restoreOriginals v) = opts v \<and> logQueue (restoreOriginals v) = logQueue v" for v
    proof -
      have "opts (fold (\<lambda>(m, original) v. v\<lparr>console := (console v)(m := original)\<rparr>) l v) = opts v
          \<and> logQueue (fold (\<lambda>(m, original) v. v\<lparr>console := (console v)(m := original)\<rparr>) l v) = logQueue v" for l
        by (induction l arbitrary: v) (auto)
      then show ?thesis by (simp add: restoreOriginals_def)
    qed
    have cr: "opts (cleanup_resume v) = opts v \<and> logQueue (cleanup_resume v) = logQueue v" for v
      by (simp add: cleanup_resume_def r)
    let ?w1 = "clearInterval w"
    have q1: "opts ?w1 = opts w" "logQueue ?w1 = logQueue w" by (simp_all add: clearInterval_def)
    have ev1: "evolves ?w1 w' \<Longrightarrow>
        opts w' = opts w \<and> int (length (logQueue w')) \<le> maxQueueSize (opts w)" for w'
      using assms q1 by (auto simp: evolves_def)
    show ?thesis
    proof (cases "length (logQueue ?w1) > 0")
      case False
      then show ?thesis using Cleanup assms cr by (simp add: cleanup_def clearInterval_def)
    next
      case True
      have e2: "evolves ?w1 (async_world (processQueue h ?w1))"
        by (rule evolves_processQueue)
      show ?thesis
      proof (cases "processQueue h ?w1")
        case (Resolves w2)
        have "evolves ?w1 (microtask_checkpoint w2)"
          using e2 Resolves by (auto intro: evolves_trans evolves_checkpoint)
        from ev1[OF this] show ?thesis using Cleanup True Resolves cr by (simp add: cleanup_def)
      next
        case (RejectsWith err w2)
        then show ?thesis using Cleanup True ev1[OF e2] by (simp add: cleanup_def)
      next
        case (Never w2)
        then show ?thesis using Cleanup True ev1[OF e2] by (simp add: cleanup_def)
      qed
    qed
  qed
qed

lemma bounded_run:
  "int (length (logQueue w)) \<le> maxQueueSize (opts w) \<Longrightarrow>
   opts (run h evs w) = opts w \<and> int (length (logQueue (run h evs w))) \<le> maxQueueSize (opts w)"
proof (induction evs arbitrary: w)
  case Nil
  then show ?case by (simp add: run_def)
next
  case (Cons ev evs)
  have s: "opts (step h ev w) = opts w \<and> int (length (logQueue (step h ev w))) \<le> maxQueueSize (opts w)"
    using bounded_step[OF Cons.prems] .
  then have "int (length (logQueue (step h ev w))) \<le> maxQueueSize (opts (step h ev w))" by simp
  from Cons.IH[OF this] s show ?case by (simp add: run_def)
qed

lemma invoke_full_queue:
  "maxQueueSize (opts w) \<le> int (length (logQueue w)) \<Longrightarrow>
   logQueue (world_of (invoke h cap f xs w)) = logQueue w"
proof (induction f arbitrary: xs)
  case (Native k)
  show ?case by simp
next
  case (Wrapper original m)
  obtain w1 where r: "invoke h cap original (xs @ [queue_full_marker]) w = Returns w1"
    using invoke_returns by blast
  have a: "logQueue w1 = logQueue w"
    using Wrapper.IH[OF Wrapper.prems, of "xs @ [queue_full_marker]"] r by simp
  have b: "logQueue (world_of (invoke h cap original xs w)) = logQueue w"
    using Wrapper.IH[OF Wrapper.prems, of xs] .
  show ?case
  proof (cases cap)
    case StackThrows
    then show ?thesis using b by simp
  next
    case (StackLine st)
    then show ?thesis using a r Wrapper.prems by simp
  qed
qed

lemmas eval_defs = run_def enhance_def enhance_method_def tracked_def setupInterval_def
  AsyncConsoleEnhancer_def tiny_options_def default_options_def host_console_def browser_def
  scheduleQueueProcessing_def

lemma one_logged_eval: "logQueue one_logged = [\<lparr>method_of = Log, args = [JStr ''a''], stack = None\<rparr>]
   \<and> console one_logged Log = Wrapper (Native 0) Log \<and> opts one_logged = tiny_options"
  unfolding one_logged_def by (simp add: eval_defs)

text \<open>
  Claim C4. In every state that a run of the page reaches from a newly constructed
  enhancer whose \<open>maxQueueSize\<close> is not negative, the queue holds at most \<open>maxQueueSize\<close>
  entries; and a console call made when the queue is at capacity (its stack capture giving a
  line) is the call of the saved original with the caller's arguments followed by the
  queue-full marker, and leaves the queue as it was.
\<close>

theorem queue_bounded_overflow_direct:
  assumes "0 \<le> maxQueueSize os" and "w = run h evs (AsyncConsoleEnhancer os c cs)"
  shows "int (length (logQueue w)) \<le> maxQueueSize os \<and>
     (int (length (logQueue w)) = maxQueueSize os \<and> console w m = Wrapper original m \<longrightarrow>
        invoke h (StackLine st) (console w m) xs w
          = invoke h (StackLine st) original (xs @ [queue_full_marker]) w \<and>
        logQueue (step h (Call m xs (StackLine st)) w) = logQueue w)"
proof -
  let ?w0 = "AsyncConsoleEnhancer os c cs"
  have "int (length (logQueue ?w0)) \<le> maxQueueSize (opts ?w0)"
    using assms(1) by (simp add: AsyncConsoleEnhancer_def)
  from bounded_run[OF this, of h evs]
  have b: "opts w = os" "int (length (logQueue w)) \<le> maxQueueSize os"
    using assms(2) by (simp_all add: AsyncConsoleEnhancer_def)
  have "invoke h (StackLine st) (console w m) xs w
          = invoke h (StackLine st) original (xs @ [queue_full_marker]) w \<and>
        logQueue (step h (Call m xs (StackLine st)) w) = logQueue w"
    if full: "int (length (logQueue w)) = maxQueueSize os" and cm: "console w m = Wrapper original m"
  proof -
    obtain w1 where r: "invoke h (StackLine st) original (xs @ [queue_full_marker]) w = Returns w1"
      using invoke_returns by blast
    have cap: "maxQueueSize (opts w) \<le> int (length (logQueue w))" using full b(1) by simp
    have 1: "invoke h (StackLine st) (Wrapper original m) xs w
          = invoke h (StackLine st) original (xs @ [queue_full_marker]) w"
      using cap r by simp
    have 2: "logQueue (world_of (invoke h (StackLine st) (console w m) xs w)) = logQueue w"
      by (rule invoke_full_queue[OF cap])
    show ?thesis using 1 2 cm by simp
  qed
  then show ?thesis using b(2) by blast
qed

theorem queue_bounded_overflow_direct_witness:
  "0 \<le> maxQueueSize tiny_options \<and>
   int (length (logQueue one_logged)) = maxQueueSize tiny_options \<and>
   console one_logged Log = Wrapper (Native 0) Log \<and>
   invoke browser (StackLine None) (console one_logged Log) [JStr ''b''] one_logged
     = Returns (one_logged\<lparr>out := out one_logged @ [(0, [JStr ''b'', queue_full_marker])]\<rparr>) \<and>
   logQueue (step browser (Call Log [JStr ''b''] (StackLine None)) one_logged) = logQueue one_logged"
proof -
  have h0: "0 \<le> maxQueueSize tiny_options" by (simp add: tiny_options_def default_options_def)
  have h1: "one_logged = run browser [Enhance, Call Log [JStr ''a''] (StackLine None)]
                  (AsyncConsoleEnhancer tiny_options host_console [])"
    by (simp add: one_logged_def)
  have full: "int (length (logQueue one_logged)) = maxQueueSize tiny_options"
    using one_logged_eval by (simp add: tiny_options_def)
  have cm: "console one_logged Log = Wrapper (Native 0) Log" using one_logged_eval by simp
  from queue_bounded_overflow_direct[OF h0 h1, of Log "Native 0" None "[JStr ''b'']"] full cm
  show ?thesis using h0 by simp
qed

lemma evolves_step:
  assumes "ev \<noteq> Enhance" and "ev \<noteq> Cleanup"
  shows "evolves w (step h ev w)"
proof (cases ev)
  case (Call m xs cap)
  then show ?thesis by (simp add: evolves_invoke)
next
  case Tick
  then show ?thesis by (simp add: evolves_begin_task)
next
  case RunTask
  show ?thesis
  proof (cases "tasks w")
    case Nil
    then show ?thesis using RunTask by simp
  next
    case (Cons t ts)
    have "evolves w (w\<lparr>tasks := ts\<rparr>)" by (simp add: evolves_def)
    then have "evolves w (begin_task (w\<lparr>tasks := ts\<rparr>))"
      by (blast intro: evolves_trans evolves_begin_task)
    then show ?thesis using RunTask Cons by simp
  qed
next
  case Settle
  show ?thesis
  proof (cases "inFlight w")
    case Nil
    then show ?thesis using Settle by simp
  next
    case (Cons b bs)
    have "evolves w (w\<lparr>inFlight := bs\<rparr>)" by (simp add: evolves_def)
    then have "evolves w (async_world (processQueue_rest h b (w\<lparr>inFlight := bs\<rparr>)))"
      by (blast intro: evolves_trans evolves_rest)
    then show ?thesis using Settle Cons by simp
  qed
next
  case Enhance
  then show ?thesis using assms by simp
next
  case Cleanup
  then show ?thesis using assms by simp
qed

lemma enhance_fields:
  "map_of (originalMethods (enhance w)) m = Some (console w m)"
  "console (enhance w) m = Wrapper (console w m) m"
  by (cases m; simp add: enhance_def tracked_def enhance_method_def setupInterval_def update_conv')+

section \<open>The replaced console methods\<close>

text \<open>
  Claim C7. A call of an intercepted console method never throws to its caller, whatever
  the arguments and whatever the stack capture does. When the capture throws, the call is
  the call of the saved original with the unchanged arguments; when the entry has been
  pushed and scheduling throws (the page has no scheduler), the saved original is called
  with the unchanged arguments in the state the push left.
\<close>

theorem wrapper_never_throws:
  "(\<exists>w'. invoke h cap (Wrapper original m) xs w = Returns w') \<and>
   (cap = StackThrows \<longrightarrow>
      invoke h cap (Wrapper original m) xs w = invoke h cap original xs w) \<and>
   (cap = StackLine st \<and> int (length (logQueue w)) < maxQueueSize (opts w) \<and>
    \<not> hasIdleCallback h \<and> \<not> hasMicrotask h \<longrightarrow>
      invoke h cap (Wrapper original m) xs w
        = invoke h cap original xs
            (w\<lparr>logQueue := logQueue w @ [\<lparr>method_of = m, args = xs, stack = st\<rparr>]\<rparr>))"
  using invoke_returns[of h cap "Wrapper original m" xs w]
  by (auto simp: scheduleQueueProcessing_def simp del: invoke.simps(2))
    (simp_all add: scheduleQueueProcessing_def)

theorem wrapper_never_throws_witness:
  "invoke browser StackThrows (console enhanced_page Warn) [JNum 1] enhanced_page
     = Returns (enhanced_page\<lparr>out := [(1, [JNum 1])]\<rparr>) \<and>
   invoke no_scheduler (StackLine (Some ''at f (app.js:1:2)'')) (console enhanced_page Warn) [JNum 1] enhanced_page
     = Returns (enhanced_page\<lparr>
         logQueue := [\<lparr>method_of = Warn, args = [JNum 1], stack = Some ''at f (app.js:1:2)''\<rparr>],
         out := [(1, [JNum 1])]\<rparr>)"
proof -
  have c: "console enhanced_page Warn = Wrapper (Native 1) Warn"
    by (simp add: enhanced_page_def fresh_page_def enhance_fields host_console_def AsyncConsoleEnhancer_def)
  have q: "logQueue enhanced_page = []" "out enhanced_page = []" "maxQueueSize (opts enhanced_page) = 1000"
    by (simp_all add: enhanced_page_def fresh_page_def eval_defs)
  have n: "\<not> hasIdleCallback no_scheduler" "\<not> hasMicrotask no_scheduler"
    by (simp_all add: no_scheduler_def browser_def)
  from wrapper_never_throws[of browser StackThrows "Native 1" Warn "[JNum 1]" enhanced_page]
  have 1: "invoke browser StackThrows (Wrapper (Native 1) Warn) [JNum 1] enhanced_page
     = invoke browser StackThrows (Native 1) [JNum 1] enhanced_page" by blast
  from wrapper_never_throws[of no_scheduler "StackLine (Some ''at f (app.js:1:2)'')" "Native 1" Warn "[JNum 1]" enhanced_page "Some ''at f (app.js:1:2)''"]
  have 2: "invoke no_scheduler (StackLine (Some ''at f (app.js:1:2)'')) (Wrapper (Native 1) Warn) [JNum 1] enhanced_page
     = invoke no_scheduler (StackLine (Some ''at f (app.js:1:2)'')) (Native 1) [JNum 1]
        (enhanced_page\<lparr>logQueue := logQueue enhanced_page @ [\<lparr>method_of = Warn, args = [JNum 1], stack = Some ''at f (app.js:1:2)''\<rparr>]\<rparr>)"
    using q n by simp
  show ?thesis unfolding c using 1 2 q by simp
qed



text \<open>
  Claim C2, as stated, fails: a second \<open>enhance\<close> records the wrapper that the first one
  installed.
\<close>

theorem second_enhance_records_wrapper:
  "map_of (originalMethods (enhance fresh_page)) Log = Some (Native 0) \<and>
   map_of (originalMethods (enhance (enhance fresh_page))) Log = Some (Wrapper (Native 0) Log) \<and>
   is_wrapper (Wrapper (Native 0) Log)"
  by (simp add: enhance_fields fresh_page_def AsyncConsoleEnhancer_def host_console_def)

text \<open>
  Claim C2, amended. Every \<open>enhance\<close> records for each method the function the console
  holds at that moment, so the first one records the functions installed before it and a
  second one records the wrappers of the first. Nothing but \<open>enhance\<close> and \<open>cleanup\<close>
  changes the registry.
\<close>

theorem registry_written_by_every_enhance:
  "map_of (originalMethods (enhance w)) m = Some (console w m) \<and>
   map_of (originalMethods (enhance (enhance w))) m = Some (Wrapper (console w m) m) \<and>
   (ev \<noteq> Enhance \<and> ev \<noteq> Cleanup \<longrightarrow> originalMethods (step h ev w) = originalMethods w)"
proof -
  have "originalMethods (step h ev w) = originalMethods w" if "ev \<noteq> Enhance" "ev \<noteq> Cleanup"
    using evolves_step[OF that, of w h] by (simp add: evolves_def)
  then show ?thesis by (simp add: enhance_fields)
qed

theorem registry_written_by_every_enhance_witness:
  "Call Log [JStr ''a''] (StackLine None) \<noteq> Enhance \<and>
   Call Log [JStr ''a''] (StackLine None) \<noteq> Cleanup \<and>
   map_of (originalMethods (enhance fresh_page)) Log = Some (Native 0) \<and>
   originalMethods (step browser (Call Log [JStr ''a''] (StackLine None)) (enhance fresh_page))
     = originalMethods (enhance fresh_page)"
  using registry_written_by_every_enhance[of fresh_page Log "Call Log [JStr ''a''] (StackLine None)" browser]
    registry_written_by_every_enhance[of "enhance fresh_page" Log "Call Log [JStr ''a''] (StackLine None)" browser]
  by (simp add: fresh_page_def AsyncConsoleEnhancer_def host_console_def)

section \<open>Loading a source map when the cache write fails\<close>

lemma try_write_fails:
  assumes "network_load_succeeds h u c w" and "cache_write_fails h u w"
  shows "\<exists>w1. loadSourceMap_try h u w = Inl (JError ''cache.put rejected'', w1) \<and>
     map_of (sourceMapCache w1) u = Some c \<and> console w1 = console w \<and>
     settledLoads w1 = settledLoads w \<and> loads w1 = loads w \<and>
     pendingSourceMaps w1 = pendingSourceMaps w \<and>
     io w1 = io w @ [CacheOpen (cacheKey (opts w)), CacheMatch (mapUrl u), Fetch (mapUrl u),
                     CacheOpen (cacheKey (opts w)), CachePut (mapUrl u)]"
  using assms
  by (auto simp: network_load_succeeds_def cache_write_fails_def loadSourceMap_try_def
      loadFromNetwork_def Let_def update_conv')

lemma try_write_succeeds:
  assumes "network_load_succeeds h u c w" and "\<not> cache_write_fails h u w"
  shows "\<exists>w1. loadSourceMap_try h u w = Inr (c, w1) \<and>
     map_of (sourceMapCache w1) u = Some c \<and> settledLoads w1 = settledLoads w \<and>
     loads w1 = loads w \<and> pendingSourceMaps w1 = pendingSourceMaps w"
  using assms
  by (auto simp: network_load_succeeds_def cache_write_fails_def loadSourceMap_try_def
      loadFromNetwork_def Let_def update_conv')

lemma invoke_keeps_cache:
  "sourceMapCache (world_of (invoke h cap f xs w)) = sourceMapCache w \<and>
   settledLoads (world_of (invoke h cap f xs w)) = settledLoads w \<and>
   loads (world_of (invoke h cap f xs w)) = loads w \<and>
   pendingSourceMaps (world_of (invoke h cap f xs w)) = pendingSourceMaps w \<and>
   io (world_of (invoke h cap f xs w)) = io w"
proof (induction f arbitrary: xs w)
  case (Native k)
  show ?case by simp
next
  case (Wrapper original m)
  obtain w1 where r: "invoke h cap original (xs @ [queue_full_marker]) w = Returns w1"
    using invoke_returns by blast
  have a: "sourceMapCache w1 = sourceMapCache w \<and> settledLoads w1 = settledLoads w \<and>
     loads w1 = loads w \<and> pendingSourceMaps w1 = pendingSourceMaps w \<and> io w1 = io w"
    using Wrapper.IH[of "xs @ [queue_full_marker]" w] r by simp
  show ?case
  proof (cases cap)
    case StackThrows
    then show ?thesis using Wrapper.IH[of xs w] by simp
  next
    case (StackLine st)
    let ?w1 = "w\<lparr>logQueue := logQueue w @ [\<lparr>method_of = m, args = xs, stack = st\<rparr>]\<rparr>"
    show ?thesis
    proof (cases "maxQueueSize (opts w) \<le> int (length (logQueue w))")
      case True
      then show ?thesis using StackLine r a by simp
    next
      case False
      then show ?thesis using StackLine Wrapper.IH[of xs ?w1]
        by (simp add: scheduleQueueProcessing_def)
    qed
  qed
qed

lemma holds_invoke:
  "holds_consumer u c w \<Longrightarrow> holds_consumer u c (world_of (invoke h cap f xs w))"
proof (induction f arbitrary: xs w)
  case (Native k)
  then show ?case by (simp add: holds_consumer_def)
next
  case (Wrapper original m)
  obtain w1 where r: "invoke h cap original (xs @ [queue_full_marker]) w = Returns w1"
    using invoke_returns by blast
  have a: "holds_consumer u c w1"
    using Wrapper.IH[OF Wrapper.prems, of "xs @ [queue_full_marker]"] r by simp
  show ?case
  proof (cases cap)
    case StackThrows
    then show ?thesis using Wrapper.IH[OF Wrapper.prems, of xs] by simp
  next
    case (StackLine st)
    let ?w1 = "w\<lparr>logQueue := logQueue w @ [\<lparr>method_of = m, args = xs, stack = st\<rparr>]\<rparr>"
    have b: "holds_consumer u c ?w1" using Wrapper.prems by (simp add: holds_consumer_def)
    show ?thesis
    proof (cases "maxQueueSize (opts w) \<le> int (length (logQueue w))")
      case True
      then show ?thesis using StackLine r a by simp
    next
      case False
      then show ?thesis using StackLine Wrapper.IH[OF b, of xs] b
        by (simp add: scheduleQueueProcessing_def holds_consumer_def)
    qed
  qed
qed

lemma holds_loadSourceMap:
  "holds_consumer u c w \<Longrightarrow> holds_consumer u c (snd (loadSourceMap v w))"
  by (auto simp: holds_consumer_def loadSourceMap_def split: option.splits)

lemma holds_try:
  "holds_consumer u c w \<Longrightarrow> v \<noteq> u \<Longrightarrow> holds_consumer u c (try_world (loadSourceMap_try h v w))"
  by (auto simp: holds_consumer_def loadSourceMap_try_def loadFromNetwork_def try_world_def
      Let_def update_conv' split: option.splits response.splits)

lemma holds_finally:
  "holds_consumer u c w \<Longrightarrow> holds_consumer u c (loadSourceMap_finally p v r w)"
  by (auto simp: holds_consumer_def loadSourceMap_finally_def)

lemma holds_body:
  assumes "holds_consumer u c w" and "v \<noteq> u"
  shows "holds_consumer u c (loadSourceMap_body h p v w)"
proof (cases "loadSourceMap_try h v w")
  case (Inr cw)
  obtain c' w1 where cw: "cw = (c', w1)" by (cases cw)
  have "holds_consumer u c w1" using holds_try[OF assms, of h] Inr cw by (simp add: try_world_def)
  then show ?thesis using Inr cw by (simp add: loadSourceMap_body_def holds_finally)
next
  case (Inl ew)
  obtain err w1 where ew: "ew = (err, w1)" by (cases ew)
  have a: "holds_consumer u c w1" using holds_try[OF assms, of h] Inl ew by (simp add: try_world_def)
  obtain w2 where r: "invoke h (selfCapture h) (console w1 Err)
                  [JStr ''Error loading source map:'', err] w1 = Returns w2"
    using invoke_returns by blast
  have "holds_consumer u c w2"
    using holds_invoke[OF a, of h "selfCapture h" "console w1 Err" "[JStr ''Error loading source map:'', err]"] r
    by simp
  then show ?thesis using Inl ew r by (simp add: loadSourceMap_body_def holds_finally)
qed

lemma holds_fold_body:
  "holds_consumer u c w \<Longrightarrow> u \<notin> snd ` set ls \<Longrightarrow>
   holds_consumer u c (fold (\<lambda>(p, fileUrl). loadSourceMap_body h p fileUrl) ls w)"
proof (induction ls arbitrary: w)
  case Nil
  then show ?case by simp
next
  case (Cons a ls)
  obtain p v where a: "a = (p, v)" by (cases a)
  have "v \<noteq> u" using Cons.prems(2) a by auto
  then have "holds_consumer u c (loadSourceMap_body h p v w)" using holds_body Cons.prems(1) by blast
  then show ?case using Cons.IH Cons.prems(2) a by simp
qed

lemma holds_run_loads: "holds_consumer u c w \<Longrightarrow> holds_consumer u c (run_loads h w)"
  unfolding run_loads_def by (rule holds_fold_body) (auto simp: holds_consumer_def)

lemma holds_start: "holds_consumer u c w \<Longrightarrow> holds_consumer u c (snd (getOriginalLocation_start h frame w))"
  using holds_loadSourceMap
  by (auto simp: getOriginalLocation_start_def split: option.splits prod.splits)
     (metis snd_conv)

lemma holds_start_batch: "holds_consumer u c w \<Longrightarrow> holds_consumer u c (snd (start_batch h batch w))"
proof (induction batch arbitrary: w)
  case Nil
  then show ?case by simp
next
  case (Cons ent rest)
  obtain wt w1 where a: "getOriginalLocation_start h (stack ent) w = (wt, w1)"
    by (cases "getOriginalLocation_start h (stack ent) w")
  obtain waits w2 where b: "start_batch h rest w1 = (waits, w2)"
    by (cases "start_batch h rest w1")
  have "holds_consumer u c w1" using holds_start[OF Cons.prems, of h "stack ent"] a by simp
  then have "holds_consumer u c w2" using Cons.IH[of w1] b by simp
  then show ?case using a b by simp
qed

lemma holds_applyOriginal:
  "holds_consumer u c w \<Longrightarrow> holds_consumer u c (world_of (applyOriginal h m xs w))"
  by (simp add: applyOriginal_def holds_invoke split: option.splits)

lemma holds_resume:
  assumes "holds_consumer u c w"
  shows "holds_consumer u c (world_of (processLogEntry_resume h ent loc w))"
proof (cases loc)
  case (Inl err)
  then show ?thesis using assms by (simp add: processLogEntry_resume_def holds_applyOriginal)
next
  case (Inr l)
  show ?thesis
  proof (cases "applyOriginal h (method_of ent) (enhancedArgs (args ent) l) w")
    case (Returns w1)
    then show ?thesis
      using Inr holds_applyOriginal[OF assms, of h "method_of ent" "enhancedArgs (args ent) l"]
      by (simp add: processLogEntry_resume_def)
  next
    case (Throws err w1)
    have "holds_consumer u c w1"
      using Throws holds_applyOriginal[OF assms, of h "method_of ent" "enhancedArgs (args ent) l"] by simp
    then show ?thesis using Inr Throws holds_applyOriginal[of u c w1 h "method_of ent" "args ent"]
      by (simp add: processLogEntry_resume_def)
  qed
qed

lemma holds_end:
  "holds_consumer u c w \<Longrightarrow> processLogEntry_end h ent wt w = Some r \<Longrightarrow> holds_consumer u c (world_of r)"
  by (auto simp: processLogEntry_end_def holds_resume split: located.splits)

lemma holds_resume_batch:
  "holds_consumer u c w \<Longrightarrow> holds_consumer u c (snd (snd (resume_batch h waits w)))"
proof (induction waits arbitrary: w)
  case Nil
  then show ?case by simp
next
  case (Cons a waits)
  obtain ent wt where a: "a = (ent, wt)" by (cases a)
  show ?case
  proof (cases "processLogEntry_end h ent wt w")
    case None
    then show ?thesis using a Cons.IH[OF Cons.prems] by (auto split: prod.splits)
  next
    case (Some r)
    have e: "holds_consumer u c (world_of r)" using holds_end[OF Cons.prems Some] .
    show ?thesis
    proof (cases r)
      case (Returns w1)
      then show ?thesis using a Some e Cons.IH[of w1] by simp
    next
      case (Throws err w1)
      then show ?thesis using a Some e Cons.IH[of w1] by (auto split: prod.splits)
    qed
  qed
qed

lemma holds_processQueue_finally:
  "holds_consumer u c w \<Longrightarrow> holds_consumer u c (async_world (processQueue_finally h w))"
  by (auto simp: processQueue_finally_def Let_def scheduleQueueProcessing_def holds_consumer_def)

lemma holds_rest:
  assumes "holds_consumer u c w"
  shows "holds_consumer u c (async_world (processQueue_rest h batch w))"
proof -
  obtain waits w1 where a: "start_batch h batch w = (waits, w1)" by (cases "start_batch h batch w")
  obtain errs hung w3 where b: "resume_batch h waits (run_loads h w1) = (errs, hung, w3)"
    by (cases "resume_batch h waits (run_loads h w1)")
  have e1: "holds_consumer u c w1" using holds_start_batch[OF assms, of h batch] a by simp
  have e2: "holds_consumer u c (run_loads h w1)" by (rule holds_run_loads[OF e1])
  have e: "holds_consumer u c w3" using holds_resume_batch[OF e2, of h waits] b by simp
  show ?thesis
  proof (cases errs)
    case Nil
    then show ?thesis using a b e holds_processQueue_finally[OF e, of h]
      by (simp add: processQueue_rest_def)
  next
    case (Cons err es)
    obtain w4 where r: "invoke h (selfCapture h) (console w3 Err)
                     [JStr ''Error processing log queue:'', err] w3 = Returns w4"
      using invoke_returns by blast
    have "holds_consumer u c w4"
      using holds_invoke[OF e, of h "selfCapture h" "console w3 Err" "[JStr ''Error processing log queue:'', err]"] r
      by simp
    then have "holds_consumer u c (async_world (processQueue_finally h w4))"
      by (rule holds_processQueue_finally)
    then show ?thesis using a b Cons r by (simp add: processQueue_rest_def)
  qed
qed

lemma holds_begin_task: "holds_consumer u c w \<Longrightarrow> holds_consumer u c (begin_task w)"
  by (auto simp: begin_task_def processQueue_begin_def holds_consumer_def)

lemma holds_enhance: "holds_consumer u c w \<Longrightarrow> holds_consumer u c (enhance w)"
proof -
  have "sourceMapCache (fold enhance_method ms w) = sourceMapCache w \<and>
        loads (fold enhance_method ms w) = loads w" for ms
    by (induction ms arbitrary: w) (simp_all add: enhance_method_def)
  then show "holds_consumer u c w \<Longrightarrow> holds_consumer u c (enhance w)"
    by (simp add: holds_consumer_def enhance_def setupInterval_def)
qed

lemma holds_step:
  assumes "holds_consumer u c w" and "ev \<noteq> Cleanup"
  shows "holds_consumer u c (step h ev w)"
proof (cases ev)
  case (Call m xs cap)
  then show ?thesis using assms by (simp add: holds_invoke)
next
  case Tick
  then show ?thesis using assms by (simp add: holds_begin_task)
next
  case RunTask
  show ?thesis
  proof (cases "tasks w")
    case Nil
    then show ?thesis using RunTask assms by simp
  next
    case (Cons t ts)
    have "holds_consumer u c (w\<lparr>tasks := ts\<rparr>)" using assms by (simp add: holds_consumer_def)
    then show ?thesis using RunTask Cons by (simp add: holds_begin_task)
  qed
next
  case Settle
  show ?thesis
  proof (cases "inFlight w")
    case Nil
    then show ?thesis using Settle assms by simp
  next
    case (Cons b bs)
    have "holds_consumer u c (w\<lparr>inFlight := bs\<rparr>)" using assms by (simp add: holds_consumer_def)
    then show ?thesis using Settle Cons by (simp add: holds_rest)
  qed
next
  case Enhance
  then show ?thesis using assms by (simp add: holds_enhance)
next
  case Cleanup
  then show ?thesis using assms by simp
qed

lemma holds_run:
  "holds_consumer u c w \<Longrightarrow> Cleanup \<notin> set evs \<Longrightarrow> holds_consumer u c (run h evs w)"
proof (induction evs arbitrary: w)
  case Nil
  then show ?case by (simp add: run_def)
next
  case (Cons ev evs)
  have "holds_consumer u c (step h ev w)" using holds_step Cons.prems by auto
  then have "holds_consumer u c (run h evs (step h ev w))" using Cons.IH Cons.prems(2) by simp
  then show ?case by (simp add: run_def)
qed

lemma loadSourceMap_new:
  assumes "map_of (sourceMapCache w) u = None" and "map_of (pendingSourceMaps w) u = None"
  shows "loadSourceMap u w =
     (Promise (nextId w),
      w\<lparr>pendingSourceMaps := AList.update u (nextId w) (pendingSourceMaps w),
        loads := loads w @ [(nextId w, u)], nextId := Suc (nextId w)\<rparr>)"
  using assms by (simp add: loadSourceMap_def)

lemma loadSourceMap_hit:
  "map_of (sourceMapCache w) u = Some c \<Longrightarrow> loadSourceMap u w = (Hit c, w)"
  by (simp add: loadSourceMap_def)

lemma body_write_fails:
  assumes "network_load_succeeds h u c w1" and "cache_write_fails h u w1"
  shows "settledLoads (loadSourceMap_body h p u w1) = settledLoads w1 @ [(p, Fulfilled None)] \<and>
         map_of (sourceMapCache (loadSourceMap_body h p u w1)) u = Some c \<and>
         loads (loadSourceMap_body h p u w1) = removeAll (p, u) (loads w1)"
proof -
  obtain wa where t: "loadSourceMap_try h u w1 = Inl (JError ''cache.put rejected'', wa)"
    and ca: "map_of (sourceMapCache wa) u = Some c" and sa: "settledLoads wa = settledLoads w1"
    and la: "loads wa = loads w1"
    using try_write_fails[OF assms] by blast
  obtain wb where r: "invoke h (selfCapture h) (console wa Err)
       [JStr ''Error loading source map:'', JError ''cache.put rejected''] wa = Returns wb"
    using invoke_returns by blast
  have k: "sourceMapCache wb = sourceMapCache wa \<and> settledLoads wb = settledLoads wa \<and> loads wb = loads wa"
    using invoke_keeps_cache[of h "selfCapture h" "console wa Err"
       "[JStr ''Error loading source map:'', JError ''cache.put rejected'']" wa] r by simp
  show ?thesis using t r k ca sa la
    by (simp add: loadSourceMap_body_def loadSourceMap_finally_def)
qed

lemma body_write_succeeds:
  assumes "network_load_succeeds h u c w1" and "\<not> cache_write_fails h u w1"
  shows "settledLoads (loadSourceMap_body h p u w1) = settledLoads w1 @ [(p, Fulfilled (Some c))]"
proof -
  obtain wa where t: "loadSourceMap_try h u w1 = Inr (c, wa)"
    and sa: "settledLoads wa = settledLoads w1"
    using try_write_succeeds[OF assms] by blast
  show ?thesis using t sa
    by (simp add: loadSourceMap_body_def loadSourceMap_finally_def)
qed

lemma conditions_after_start:
  assumes "map_of (sourceMapCache w) u = None" and "map_of (pendingSourceMaps w) u = None"
  shows "network_load_succeeds h u c (snd (loadSourceMap u w)) = network_load_succeeds h u c w"
    and "cache_write_fails h u (snd (loadSourceMap u w)) = cache_write_fails h u w"
    and "settledLoads (snd (loadSourceMap u w)) = settledLoads w"
    and "loads (snd (loadSourceMap u w)) = loads w @ [(nextId w, u)]"
    and "fst (loadSourceMap u w) = Promise (nextId w)"
  using assms
  by (simp_all add: loadSourceMap_new network_load_succeeds_def cache_write_fails_def)

text \<open>
  Claim C10. When the network load succeeds and the write to the platform cache store
  rejects, the promise of that \<open>loadSourceMap\<close> call is fulfilled with \<^verbatim>\<open>null\<close>, the
  memory cache holds the consumer all the same, and after any run of the page without
  \<open>cleanup\<close> a call of \<open>loadSourceMap\<close> for the same URL is a cache hit that returns this
  consumer and leaves the state, so also the record of requests, as it was.
\<close>

theorem failed_cache_write_keeps_consumer:
  assumes "network_load_succeeds h u c w" and "cache_write_fails h u w"
    and "map_of (pendingSourceMaps w) u = None" and "u \<notin> snd ` set (loads w)"
    and "w2 = loadSourceMap_body h (nextId w) u (snd (loadSourceMap u w))"
    and "Cleanup \<notin> set evs"
  shows "fst (loadSourceMap u w) = Promise (nextId w) \<and>
         settledLoads w2 = settledLoads w @ [(nextId w, Fulfilled None)] \<and>
         map_of (sourceMapCache w2) u = Some c \<and>
         loadSourceMap u (run h evs w2) = (Hit c, run h evs w2)"
proof -
  let ?w1 = "snd (loadSourceMap u w)"
  have miss: "map_of (sourceMapCache w) u = None"
    using assms(1) by (simp add: network_load_succeeds_def)
  note cs = conditions_after_start[OF miss assms(3)]
  have n1: "network_load_succeeds h u c ?w1" and f1: "cache_write_fails h u ?w1"
    using cs(1,2) assms(1,2) by simp_all
  from body_write_fails[OF n1 f1, of "nextId w"]
  have s: "settledLoads w2 = settledLoads w @ [(nextId w, Fulfilled None)]"
    and c2: "map_of (sourceMapCache w2) u = Some c"
    and l2: "loads w2 = removeAll (nextId w, u) (loads w @ [(nextId w, u)])"
    using assms(5) cs(3,4) by simp_all
  have "u \<notin> snd ` set (loads w2)" using l2 assms(4) by auto
  then have "holds_consumer u c w2" using c2 by (simp add: holds_consumer_def)
  from holds_run[OF this assms(6), of h]
  have "map_of (sourceMapCache (run h evs w2)) u = Some c" by (simp add: holds_consumer_def)
  then have "loadSourceMap u (run h evs w2) = (Hit c, run h evs w2)" by (rule loadSourceMap_hit)
  then show ?thesis using s c2 cs(5) by simp
qed

text \<open>
  Claim C3, amended. When the memory cache and the platform cache miss, the fetch succeeds
  and the map parses, the promise of \<open>loadSourceMap\<close> is fulfilled with the consumer if the
  write to the platform cache store succeeds or is not attempted, and with \<^verbatim>\<open>null\<close> if
  that write rejects.
\<close>

theorem network_load_result_depends_on_cache_write:
  assumes "network_load_succeeds h u c w" and "map_of (pendingSourceMaps w) u = None"
    and "w2 = loadSourceMap_body h (nextId w) u (snd (loadSourceMap u w))"
  shows "settledLoads w2 = settledLoads w @
           [(nextId w, if cache_write_fails h u w then Fulfilled None else Fulfilled (Some c))]"
proof -
  let ?w1 = "snd (loadSourceMap u w)"
  have miss: "map_of (sourceMapCache w) u = None"
    using assms(1) by (simp add: network_load_succeeds_def)
  note cs = conditions_after_start[OF miss assms(2)]
  have n1: "network_load_succeeds h u c ?w1" using cs(1) assms(1) by simp
  show ?thesis
  proof (cases "cache_write_fails h u w")
    case True
    then have "cache_write_fails h u ?w1" using cs(2) by simp
    from body_write_fails[OF n1 this, of "nextId w"] show ?thesis using True assms(3) cs(3) by simp
  next
    case False
    then have "\<not> cache_write_fails h u ?w1" using cs(2) by simp
    from body_write_succeeds[OF n1 this, of "nextId w"] show ?thesis using False assms(3) cs(3) by simp
  qed
qed

lemma enhanced_page_fields:
  "sourceMapCache enhanced_page = []" "pendingSourceMaps enhanced_page = []"
  "loads enhanced_page = []" "settledLoads enhanced_page = []" "nextId enhanced_page = 1"
  "cacheStore enhanced_page = []" "opts enhanced_page = default_options"
  by (simp_all add: enhanced_page_def fresh_page_def eval_defs)

lemma fresh_page_fields:
  "sourceMapCache fresh_page = []" "pendingSourceMaps fresh_page = []"
  "loads fresh_page = []" "settledLoads fresh_page = []" "nextId fresh_page = 0"
  "cacheStore fresh_page = []" "opts fresh_page = default_options"
  "console fresh_page = host_console"
  by (simp_all add: fresh_page_def eval_defs)

text \<open>
  Claim C3, as stated, fails: with a cache store that rejects the write, the load whose
  fetch and parse succeeded is fulfilled with \<^verbatim>\<open>null\<close>.
\<close>

theorem cache_write_failure_yields_null:
  "network_load_succeeds put_failing ''app.js'' (Consumer 0) fresh_page \<and>
   fst (loadSourceMap ''app.js'' fresh_page) = Promise 0 \<and>
   settledLoads (loadSourceMap_body put_failing 0 ''app.js'' (snd (loadSourceMap ''app.js'' fresh_page)))
     = [(0, Fulfilled None)]"
  by (simp add: network_load_succeeds_def loadSourceMap_def fresh_page_fields put_failing_def
      browser_def mapUrl_def loadSourceMap_body_def loadSourceMap_try_def loadFromNetwork_def
      loadSourceMap_finally_def default_options_def host_console_def Let_def)

theorem failed_cache_write_keeps_consumer_witness:
  "network_load_succeeds put_failing ''app.js'' (Consumer 0) enhanced_page \<and>
   cache_write_fails put_failing ''app.js'' enhanced_page \<and>
   map_of (pendingSourceMaps enhanced_page) ''app.js'' = None \<and>
   ''app.js'' \<notin> snd ` set (loads enhanced_page) \<and>
   Cleanup \<notin> set [Call Log [JStr ''a''] (StackLine None), RunTask, Settle] \<and>
   fst (loadSourceMap ''app.js'' enhanced_page) = Promise 1 \<and>
   settledLoads (loadSourceMap_body put_failing 1 ''app.js'' (snd (loadSourceMap ''app.js'' enhanced_page)))
     = [(1, Fulfilled None)] \<and>
   fst (loadSourceMap ''app.js''
         (run put_failing [Call Log [JStr ''a''] (StackLine None), RunTask, Settle]
            (loadSourceMap_body put_failing 1 ''app.js'' (snd (loadSourceMap ''app.js'' enhanced_page)))))
     = Hit (Consumer 0)"
proof -
  have a: "network_load_succeeds put_failing ''app.js'' (Consumer 0) enhanced_page"
    by (simp add: network_load_succeeds_def enhanced_page_fields put_failing_def browser_def mapUrl_def)
  have b: "cache_write_fails put_failing ''app.js'' enhanced_page"
    by (simp add: cache_write_fails_def enhanced_page_fields put_failing_def browser_def
        default_options_def)
  have c: "map_of (pendingSourceMaps enhanced_page) ''app.js'' = None"
    by (simp add: enhanced_page_fields)
  have d: "''app.js'' \<notin> snd ` set (loads enhanced_page)" by (simp add: enhanced_page_fields)
  have e: "Cleanup \<notin> set [Call Log [JStr ''a''] (StackLine None), RunTask, Settle]" by simp
  have f: "loadSourceMap_body put_failing 1 ''app.js'' (snd (loadSourceMap ''app.js'' enhanced_page))
     = loadSourceMap_body put_failing (nextId enhanced_page) ''app.js'' (snd (loadSourceMap ''app.js'' enhanced_page))"
    by (simp add: enhanced_page_fields)
  from failed_cache_write_keeps_consumer[OF a b c d f e]
  show ?thesis using a b c d by (simp add: enhanced_page_fields)
qed

theorem network_load_result_depends_on_cache_write_witness:
  "network_load_succeeds browser ''app.js'' (Consumer 0) fresh_page \<and>
   map_of (pendingSourceMaps fresh_page) ''app.js'' = None \<and>
   \<not> cache_write_fails browser ''app.js'' fresh_page \<and>
   settledLoads (loadSourceMap_body browser 0 ''app.js'' (snd (loadSourceMap ''app.js'' fresh_page)))
     = [(0, Fulfilled (Some (Consumer 0)))]"
proof -
  have a: "network_load_succeeds browser ''app.js'' (Consumer 0) fresh_page"
    by (simp add: network_load_succeeds_def fresh_page_fields browser_def mapUrl_def)
  have b: "\<not> cache_write_fails browser ''app.js'' fresh_page"
    by (simp add: cache_write_fails_def browser_def)
  have c: "map_of (pendingSourceMaps fresh_page) ''app.js'' = None"
    by (simp add: fresh_page_fields)
  have f: "loadSourceMap_body browser 0 ''app.js'' (snd (loadSourceMap ''app.js'' fresh_page))
     = loadSourceMap_body browser (nextId fresh_page) ''app.js'' (snd (loadSourceMap ''app.js'' fresh_page))"
    by (simp add: fresh_page_fields)
  from network_load_result_depends_on_cache_write[OF a c f]
  show ?thesis using a b c by (simp add: fresh_page_fields)
qed

section \<open>One load in flight for a file\<close>

lemma start_joined:
  assumes "sourceMapEnabled (opts w)" and "map_of (sourceMapCache w) u = None"
    and "map_of (pendingSourceMaps w) u = Some p" and "references h u ent"
  shows "snd (getOriginalLocation_start h (stack ent) w) = w \<and>
         awaits p (fst (getOriginalLocation_start h (stack ent) w))"
  using assms
  by (auto simp: getOriginalLocation_start_def references_def loadSourceMap_def
      split: option.splits prod.splits)

lemma start_batch_joined:
  assumes "sourceMapEnabled (opts w)" and "map_of (sourceMapCache w) u = None"
    and "map_of (pendingSourceMaps w) u = Some p" and "\<forall>ent\<in>set batch. references h u ent"
  shows "snd (start_batch h batch w) = w \<and>
         (\<forall>(ent, wt)\<in>set (fst (start_batch h batch w)). awaits p wt)"
  using assms(4)
proof (induction batch)
  case Nil
  show ?case by simp
next
  case (Cons ent rest)
  have r: "references h u ent" using Cons.prems by simp
  obtain wt where a: "getOriginalLocation_start h (stack ent) w = (wt, w)" and aw: "awaits p wt"
    using start_joined[OF assms(1,2,3) r]
    by (cases "getOriginalLocation_start h (stack ent) w") auto
  obtain waits w2 where b: "start_batch h rest w = (waits, w2)" by (cases "start_batch h rest w")
  have "w2 = w \<and> (\<forall>(ent, wt)\<in>set waits. awaits p wt)" using Cons b by simp
  then show ?case using a aw b by simp
qed

lemma start_first:
  assumes "sourceMapEnabled (opts w)" and "map_of (sourceMapCache w) u = None"
    and "map_of (pendingSourceMaps w) u = None" and "references h u ent"
  shows "snd (getOriginalLocation_start h (stack ent) w) = snd (loadSourceMap u w) \<and>
         awaits (nextId w) (fst (getOriginalLocation_start h (stack ent) w))"
  using assms
  by (auto simp: getOriginalLocation_start_def references_def loadSourceMap_def
      split: option.splits prod.splits)

lemma body_pending_removed:
  "map_of (pendingSourceMaps (loadSourceMap_body h p u w)) u = None"
proof -
  have "map_of (pendingSourceMaps (loadSourceMap_finally p u r v)) u = None" for r v
    by (simp add: loadSourceMap_finally_def delete_conv')
  then show ?thesis
    by (auto simp: loadSourceMap_body_def split: sum.splits prod.splits outcome.splits)
qed

lemma try_fetches:
  "fetches u (try_world (loadSourceMap_try h u w)) =
     fetches u w + (if in_platform_cache h u w then 0 else 1)"
  by (auto simp: fetches_def in_platform_cache_def loadSourceMap_try_def loadFromNetwork_def
      try_world_def Let_def split: option.splits response.splits)

lemma body_fetches:
  "fetches u (loadSourceMap_body h p u w) =
     fetches u w + (if in_platform_cache h u w then 0 else 1)"
proof (cases "loadSourceMap_try h u w")
  case (Inr cw)
  obtain c w1 where cw: "cw = (c, w1)" by (cases cw)
  have "fetches u w1 = fetches u w + (if in_platform_cache h u w then 0 else 1)"
    using try_fetches[of u h w] Inr cw by (simp add: try_world_def)
  then show ?thesis using Inr cw
    by (simp add: loadSourceMap_body_def loadSourceMap_finally_def fetches_def)
next
  case (Inl ew)
  obtain err w1 where ew: "ew = (err, w1)" by (cases ew)
  have a: "fetches u w1 = fetches u w + (if in_platform_cache h u w then 0 else 1)"
    using try_fetches[of u h w] Inl ew by (simp add: try_world_def)
  obtain w2 where r: "invoke h (selfCapture h) (console w1 Err)
                  [JStr ''Error loading source map:'', err] w1 = Returns w2"
    using invoke_returns by blast
  have "io w2 = io w1"
    using invoke_keeps_cache[of h "selfCapture h" "console w1 Err" "[JStr ''Error loading source map:'', err]" w1] r
    by simp
  then show ?thesis using Inl ew r a
    by (simp add: loadSourceMap_body_def loadSourceMap_finally_def fetches_def)
qed



section \<open>Restoring the console\<close>

lemma evolves_run:
  "Enhance \<notin> set evs \<Longrightarrow> Cleanup \<notin> set evs \<Longrightarrow> evolves w (run h evs w)"
proof (induction evs arbitrary: w)
  case Nil
  show ?case by (simp add: run_def)
next
  case (Cons ev evs)
  have a: "evolves w (step h ev w)" using Cons.prems by (intro evolves_step) auto
  have b: "evolves (step h ev w) (run h evs (step h ev w))" using Cons by simp
  show ?case using evolves_trans[OF a b] by (simp add: run_def)
qed

lemma enhance_fresh:
  "originalMethods (enhance (AsyncConsoleEnhancer os c cs)) =
     [(Log, c Log), (Warn, c Warn), (Err, c Err), (Info, c Info), (Debug, c Debug)]"
  by (simp add: enhance_def tracked_def enhance_method_def setupInterval_def AsyncConsoleEnhancer_def)

lemma restore_all:
  assumes "originalMethods v = [(Log, c Log), (Warn, c Warn), (Err, c Err), (Info, c Info), (Debug, c Debug)]"
  shows "console (restoreOriginals v) = c"
proof
  fix m
  show "console (restoreOriginals v) m = c m"
    using assms by (cases m) (simp_all add: restoreOriginals_def)
qed

lemma cleanup_resume_fields:
  "originalMethods (cleanup_resume v) = []"
  "logQueue (cleanup_resume v) = logQueue v"
  "originalMethods v = [] \<Longrightarrow> console (cleanup_resume v) = console v"
  "originalMethods v = [(Log, c Log), (Warn, c Warn), (Err, c Err), (Info, c Info), (Debug, c Debug)]
     \<Longrightarrow> console (cleanup_resume v) = c"
proof -
  have f: "logQueue (fold (\<lambda>(m, original) v. v\<lparr>console := (console v)(m := original)\<rparr>) l v) = logQueue v" for l v
    by (induction l arbitrary: v) auto
  show "originalMethods (cleanup_resume v) = []" by (simp add: cleanup_resume_def)
  show "logQueue (cleanup_resume v) = logQueue v"
    by (simp add: cleanup_resume_def restoreOriginals_def f)
  show "originalMethods v = [] \<Longrightarrow> console (cleanup_resume v) = console v"
    by (simp add: cleanup_resume_def restoreOriginals_def)
  show "originalMethods v = [(Log, c Log), (Warn, c Warn), (Err, c Err), (Info, c Info), (Debug, c Debug)]
     \<Longrightarrow> console (cleanup_resume v) = c"
    using restore_all[of "v\<lparr>destroyed := destroyed v @ map snd (sourceMapCache v),
          sourceMapCache := [], pendingSourceMaps := []\<rparr>" c]
    by (simp add: cleanup_resume_def)
qed

text \<open>What \<open>cleanup\<close> resolves with is \<open>cleanup_resume\<close> of a state that the state after
  \<open>clearInterval\<close> has evolved to.\<close>

lemma cleanup_resolves:
  assumes "cleanup h w = Resolves w'"
  shows "\<exists>v. evolves (clearInterval w) v \<and> w' = cleanup_resume v"
proof -
  let ?w1 = "clearInterval w"
  show ?thesis
  proof (cases "length (logQueue ?w1) > 0")
    case False
    then have "w' = cleanup_resume ?w1" using assms by (simp add: cleanup_def)
    then show ?thesis using evolves_refl by blast
  next
    case True
    have e2: "evolves ?w1 (async_world (processQueue h ?w1))"
      by (rule evolves_processQueue)
    show ?thesis
    proof (cases "processQueue h ?w1")
      case (Resolves w2)
      have "evolves ?w1 (microtask_checkpoint w2)"
        using e2 Resolves by (auto intro: evolves_trans evolves_checkpoint)
      then show ?thesis using assms True Resolves by (auto simp: cleanup_def)
    next
      case (RejectsWith err w2)
      then show ?thesis using assms True by (simp add: cleanup_def)
    next
      case (Never w2)
      then show ?thesis using assms True by (simp add: cleanup_def)
    qed
  qed
qed

lemma cleanup_with_empty_registry:
  assumes "originalMethods w = []"
  shows "console (async_world (cleanup h w)) = console w \<and>
         originalMethods (async_world (cleanup h w)) = []"
proof -
  let ?w1 = "clearInterval w"
  have q1: "originalMethods ?w1 = []" "console ?w1 = console w"
    using assms by (simp_all add: clearInterval_def)
  show ?thesis
  proof (cases "length (logQueue ?w1) > 0")
    case False
    then show ?thesis using q1 by (simp add: cleanup_def cleanup_resume_fields)
  next
    case True
    have e2: "evolves ?w1 (async_world (processQueue h ?w1))"
      by (rule evolves_processQueue)
    show ?thesis
    proof (cases "processQueue h ?w1")
      case (Resolves w2)
      have "evolves ?w1 (microtask_checkpoint w2)"
        using e2 Resolves by (auto intro: evolves_trans evolves_checkpoint)
      then have "originalMethods (microtask_checkpoint w2) = []"
        "console (microtask_checkpoint w2) = console w"
        using q1 by (simp_all add: evolves_def)
      then show ?thesis using True Resolves by (simp add: cleanup_def cleanup_resume_fields)
    next
      case (RejectsWith err w2)
      then show ?thesis using True e2 q1 by (simp add: cleanup_def evolves_def)
    next
      case (Never w2)
      then show ?thesis using True e2 q1 by (simp add: cleanup_def evolves_def)
    qed
  qed
qed

lemma processQueue_no_reject:
  assumes "hasIdleCallback h \<or> hasMicrotask h"
  shows "processQueue h w \<noteq> RejectsWith err v"
proof -
  have f: "processQueue_finally h x \<noteq> RejectsWith err v" for x
    using assms by (auto simp: processQueue_finally_def scheduleQueueProcessing_def Let_def)
  have r: "processQueue_rest h b x \<noteq> RejectsWith err v" for b x
  proof -
    obtain waits w1 where a: "start_batch h b x = (waits, w1)" by (cases "start_batch h b x")
    obtain errs hung w3 where c: "resume_batch h waits (run_loads h w1) = (errs, hung, w3)"
      by (cases "resume_batch h waits (run_loads h w1)")
    show ?thesis
    proof (cases errs)
      case Nil
      then show ?thesis using a c f by (simp add: processQueue_rest_def)
    next
      case (Cons e es)
      obtain w4 where i: "invoke h (selfCapture h) (console w3 Err)
                     [JStr ''Error processing log queue:'', e] w3 = Returns w4"
        using invoke_returns by blast
      show ?thesis using a c Cons i f by (simp add: processQueue_rest_def)
    qed
  qed
  show ?thesis using r by (auto simp: processQueue_def split: prod.splits option.splits)
qed

lemma cleanup_no_reject:
  assumes "hasIdleCallback h \<or> hasMicrotask h"
  shows "cleanup h w \<noteq> RejectsWith err v"
  using processQueue_no_reject[OF assms]
  by (auto simp: cleanup_def Let_def split: async.splits)

lemma restore_fold_fields:
  fixes v :: world
  shows "timers (fold (\<lambda>(m, original) v. v\<lparr>console := (console v)(m := original)\<rparr>) l v) = timers v"
    and "flushInterval_handle (fold (\<lambda>(m, original) v. v\<lparr>console := (console v)(m := original)\<rparr>) l v)
           = flushInterval_handle v"
    and "sourceMapCache (fold (\<lambda>(m, original) v. v\<lparr>console := (console v)(m := original)\<rparr>) l v)
           = sourceMapCache v"
    and "pendingSourceMaps (fold (\<lambda>(m, original) v. v\<lparr>console := (console v)(m := original)\<rparr>) l v)
           = pendingSourceMaps v"
  by (induction l arbitrary: v; auto)+

lemma cleanup_resume_fixed:
  fixes x :: world
  assumes "originalMethods x = []" and "sourceMapCache x = []" and "pendingSourceMaps x = []"
  shows "cleanup_resume x = x"
  using assms by (cases x) (simp add: cleanup_resume_def restoreOriginals_def)

lemma cleanup_resume_idem:
  fixes v :: world
  assumes "\<And>t. flushInterval_handle v = Some t \<Longrightarrow> t \<notin> set (timers v)"
  shows "cleanup_resume (clearInterval (cleanup_resume v)) = cleanup_resume v"
proof -
  have t: "timers (cleanup_resume v) = timers v"
    "flushInterval_handle (cleanup_resume v) = flushInterval_handle v"
    by (simp_all add: cleanup_resume_def restoreOriginals_def restore_fold_fields)
  have "clearInterval (cleanup_resume v) = cleanup_resume v"
    using assms t by (cases "flushInterval_handle v") (simp_all add: clearInterval_def)
  moreover have "cleanup_resume (cleanup_resume v) = cleanup_resume v"
    by (rule cleanup_resume_fixed)
      (simp_all add: cleanup_resume_def restoreOriginals_def restore_fold_fields)
  ultimately show ?thesis by simp
qed

lemma cleanup_twice_noop:
  assumes "cleanup h w = Resolves w'" and "logQueue w' = []"
  shows "cleanup h w' = Resolves w'"
proof -
  obtain v where e: "evolves (clearInterval w) v" and v: "w' = cleanup_resume v"
    using cleanup_resolves[OF assms(1)] by blast
  have c: "flushInterval_handle (clearInterval w) = Some t \<Longrightarrow> t \<notin> set (timers (clearInterval w))" for t
    by (auto simp: clearInterval_def)
  have "t \<notin> set (timers v)" if "flushInterval_handle v = Some t" for t
    using e that c[of t] by (simp add: evolves_def)
  from cleanup_resume_idem[OF this] have i: "cleanup_resume (clearInterval w') = w'"
    using v by simp
  have "logQueue (clearInterval w') = []" using assms(2) by (simp add: clearInterval_def)
  then show ?thesis using i by (simp add: cleanup_def)
qed


lemmas drain_defs = cleanup_def clearInterval_def processQueue_def processQueue_begin_def
  processQueue_rest_def processQueue_finally_def splice_count_def run_loads_def
  getOriginalLocation_start_def processLogEntry_end_def resolve_wait_def
  processLogEntry_resume_def applyOriginal_def enhancedArgs_def lastArg_def
  newline_plus_def frame_value_def of_resume_def
  microtask_checkpoint_def begin_task_def cleanup_resume_def restoreOriginals_def

lemma one_call_state:
  "run browser one_call enhanced_page =
     enhanced_page\<lparr>logQueue := [\<lparr>method_of = Log, args = [JStr ''a''], stack = None\<rparr>],
                   tasks := [IdleTask]\<rparr>"
  by (simp add: one_call_def enhanced_page_def fresh_page_def eval_defs)

lemma enhanced_page_record:
  "enhanced_page = \<lparr> sourceMapCache = [], logQueue = [], isProcessing = False, opts = default_options,
       originalMethods = [(Log, Native 0), (Warn, Native 1), (Err, Native 2), (Info, Native 3), (Debug, Native 4)],
       pendingSourceMaps = [], flushInterval_handle = Some 0,
       console = (\<lambda>m. Wrapper (host_console m) m), timers = [0], tasks = [], inFlight = [], out = [], io = [],
       cacheStore = [], destroyed = [], loads = [], settledLoads = [], nextId = 1 \<rparr>"
proof -
  have "(\<lambda>m. Wrapper (host_console m) m) =
     (host_console(Log := Wrapper (host_console Log) Log, Warn := Wrapper (host_console Warn) Warn,
        Err := Wrapper (host_console Err) Err, Info := Wrapper (host_console Info) Info,
        Debug := Wrapper (host_console Debug) Debug))"
  proof
    fix m
    show "Wrapper (host_console m) m =
     (host_console(Log := Wrapper (host_console Log) Log, Warn := Wrapper (host_console Warn) Warn,
        Err := Wrapper (host_console Err) Err, Info := Wrapper (host_console Info) Info,
        Debug := Wrapper (host_console Debug) Debug)) m"
      by (cases m) simp_all
  qed
  then show ?thesis
    by (simp add: enhanced_page_def fresh_page_def enhance_def enhance_method_def tracked_def
      setupInterval_def AsyncConsoleEnhancer_def host_console_def default_options_def)
qed

lemma cleanup_one_call:
  "cleanup browser (run browser one_call enhanced_page) = Resolves after_cleanup"
  unfolding after_cleanup_def one_call_state
  by (simp add: enhanced_page_record drain_defs browser_def default_options_def)


lemma two_pending_state:
  "two_pending browser = enhanced_page\<lparr>opts := default_options\<lparr>batchSize := 1\<rparr>,
      logQueue := [\<lparr>method_of = Log, args = [JStr ''a''], stack = None\<rparr>,
                   \<lparr>method_of = Log, args = [JStr ''b''], stack = None\<rparr>],
      tasks := [IdleTask, IdleTask]\<rparr>"
  "two_pending microtask_page = enhanced_page\<lparr>opts := default_options\<lparr>batchSize := 1\<rparr>,
      logQueue := [\<lparr>method_of = Log, args = [JStr ''a''], stack = None\<rparr>,
                   \<lparr>method_of = Log, args = [JStr ''b''], stack = None\<rparr>],
      tasks := [MicroTask, MicroTask]\<rparr>"
  by (simp_all add: two_pending_def enhanced_page_def fresh_page_def eval_defs microtask_page_def)

text \<open>
  Claim C1 at \<open>batchSize = 1\<close> with two entries pending. \<open>cleanup\<close> emits the first entry
  only and then restores the console and clears the registry. With idle callbacks the
  second entry is still in the queue when \<open>cleanup\<close> resolves; with \<^verbatim>\<open>queueMicrotask\<close> it
  has been taken off the queue but not emitted. In both cases its later processing finds
  the registry empty, and what is printed is the error of \<open>processQueue\<close>, not the entry.
\<close>

theorem cleanup_flushes_one_batch_only:
  "length (logQueue (two_pending browser)) = 2 \<and>
   (\<exists>w'. cleanup browser (two_pending browser) = Resolves w' \<and>
      out w' = [(0, [JStr ''a''])] \<and>
      logQueue w' = [\<lparr>method_of = Log, args = [JStr ''b''], stack = None\<rparr>] \<and>
      console w' = host_console \<and> originalMethods w' = [] \<and>
      out (run browser [RunTask, Settle] w') =
        [(0, [JStr ''a'']),
         (2, [JStr ''Error processing log queue:'', JError ''TypeError: undefined has no apply''])]) \<and>
   (\<exists>w'. cleanup microtask_page (two_pending microtask_page) = Resolves w' \<and>
      out w' = [(0, [JStr ''a''])] \<and>
      inFlight w' = [[\<lparr>method_of = Log, args = [JStr ''b''], stack = None\<rparr>]] \<and>
      console w' = host_console \<and> originalMethods w' = [] \<and>
      out (run microtask_page [Settle] w') =
        [(0, [JStr ''a'']),
         (2, [JStr ''Error processing log queue:'', JError ''TypeError: undefined has no apply''])])"
proof -
  have m: "x \<noteq> Log \<longrightarrow> x \<noteq> Warn \<longrightarrow> x \<noteq> Err \<longrightarrow> x \<noteq> Info \<longrightarrow> x = Debug" for x
    by (cases x) simp_all
  show ?thesis
    unfolding two_pending_state
    by (simp add: enhanced_page_record drain_defs scheduleQueueProcessing_def browser_def
        microtask_page_def default_options_def run_def host_console_def fun_eq_iff m
        split: method_name.splits)
qed

section \<open>The entries of a batch\<close>

lemma mapUrl_inj: "mapUrl u = mapUrl v \<Longrightarrow> u = v"
  by (simp add: mapUrl_def)

lemma try_consumer_cong:
  assumes "opts w' = opts w"
    and "map_of (cacheStore w') (cacheKey (opts w), mapUrl u)
          = map_of (cacheStore w) (cacheKey (opts w), mapUrl u)"
  shows "try_consumer (loadSourceMap_try h u w') = try_consumer (loadSourceMap_try h u w)"
  using assms
  by (auto simp: try_consumer_def loadSourceMap_try_def loadFromNetwork_def Let_def
      split: option.splits response.splits)

lemma try_cacheStore_other:
  assumes "v \<noteq> u"
  shows "map_of (cacheStore (try_world (loadSourceMap_try h u w))) (k, mapUrl v)
          = map_of (cacheStore w) (k, mapUrl v)"
  using assms mapUrl_inj[of u v]
  by (auto simp: try_world_def loadSourceMap_try_def loadFromNetwork_def Let_def update_conv'
      split: option.splits response.splits)

lemma try_world_cases:
  "loadSourceMap_try h u w = Inl (err, w1) \<Longrightarrow> try_world (loadSourceMap_try h u w) = w1"
  "loadSourceMap_try h u w = Inr (c, w1) \<Longrightarrow> try_world (loadSourceMap_try h u w) = w1"
  by (simp_all add: try_world_def)

lemma invoke_keeps_store:
  "cacheStore (world_of (invoke h cap f xs w)) = cacheStore w"
proof (induction f arbitrary: xs w)
  case (Native k)
  show ?case by simp
next
  case (Wrapper original m)
  obtain w1 where r: "invoke h cap original (xs @ [queue_full_marker]) w = Returns w1"
    using invoke_returns by blast
  have a: "cacheStore w1 = cacheStore w"
    using Wrapper.IH[of "xs @ [queue_full_marker]" w] r by simp
  show ?case
  proof (cases cap)
    case StackThrows
    then show ?thesis using Wrapper.IH[of xs w] by simp
  next
    case (StackLine st)
    let ?w1 = "w\<lparr>logQueue := logQueue w @ [\<lparr>method_of = m, args = xs, stack = st\<rparr>]\<rparr>"
    show ?thesis
    proof (cases "maxQueueSize (opts w) \<le> int (length (logQueue w))")
      case True
      then show ?thesis using StackLine r a by simp
    next
      case False
      then show ?thesis using StackLine Wrapper.IH[of xs ?w1]
        by (simp add: scheduleQueueProcessing_def)
    qed
  qed
qed

lemma try_keeps_settled:
  "settledLoads (try_world (loadSourceMap_try h u w)) = settledLoads w"
  by (auto simp: try_world_def loadSourceMap_try_def loadFromNetwork_def Let_def
      split: option.splits response.splits)

text \<open>What one load body does to the settled promises, the options, the registry and the
  platform cache entries of other files.\<close>

lemma body_settles:
  "settledLoads (loadSourceMap_body h p u w)
     = settledLoads w @ [(p, Fulfilled (try_consumer (loadSourceMap_try h u w)))]"
proof -
  have fin: "settledLoads (loadSourceMap_finally p u r x) = settledLoads x @ [(p, r)]" for r x
    by (simp add: loadSourceMap_finally_def)
  show ?thesis
  proof (cases "loadSourceMap_try h u w")
    case (Inr cw)
    obtain c w1 where cw: "cw = (c, w1)" by (cases cw)
    have "settledLoads w1 = settledLoads w"
      using try_keeps_settled[of h u w] Inr cw by (simp add: try_world_def)
    then show ?thesis using Inr cw by (simp add: loadSourceMap_body_def fin try_consumer_def)
  next
    case (Inl ew)
    obtain err w1 where ew: "ew = (err, w1)" by (cases ew)
    have a: "settledLoads w1 = settledLoads w"
      using try_keeps_settled[of h u w] Inl ew by (simp add: try_world_def)
    obtain w2 where r: "invoke h (selfCapture h) (console w1 Err)
                  [JStr ''Error loading source map:'', err] w1 = Returns w2"
      using invoke_returns by blast
    have "settledLoads w2 = settledLoads w1"
      using invoke_keeps_cache[of h "selfCapture h" "console w1 Err"
          "[JStr ''Error loading source map:'', err]" w1] r by simp
    then show ?thesis using Inl ew r a by (simp add: loadSourceMap_body_def fin try_consumer_def)
  qed
qed

lemma body_keeps:
  "opts (loadSourceMap_body h p u w) = opts w"
  "originalMethods (loadSourceMap_body h p u w) = originalMethods w"
  using evolves_body[of w h p u] by (simp_all add: evolves_def)

lemma body_store_other:
  assumes "v \<noteq> u"
  shows "map_of (cacheStore (loadSourceMap_body h p u w)) (k, mapUrl v)
           = map_of (cacheStore w) (k, mapUrl v)"
proof -
  have fin: "cacheStore (loadSourceMap_finally p u r x) = cacheStore x" for r x
    by (simp add: loadSourceMap_finally_def)
  show ?thesis
  proof (cases "loadSourceMap_try h u w")
    case (Inr cw)
    obtain c w1 where cw: "cw = (c, w1)" by (cases cw)
    have "map_of (cacheStore w1) (k, mapUrl v) = map_of (cacheStore w) (k, mapUrl v)"
      using try_cacheStore_other[OF assms, of h w k] Inr cw by (simp add: try_world_def)
    then show ?thesis using Inr cw by (simp add: loadSourceMap_body_def fin)
  next
    case (Inl ew)
    obtain err w1 where ew: "ew = (err, w1)" by (cases ew)
    have a: "map_of (cacheStore w1) (k, mapUrl v) = map_of (cacheStore w) (k, mapUrl v)"
      using try_cacheStore_other[OF assms, of h w k] Inl ew by (simp add: try_world_def)
    obtain w2 where r: "invoke h (selfCapture h) (console w1 Err)
                  [JStr ''Error loading source map:'', err] w1 = Returns w2"
      using invoke_returns by blast
    have "cacheStore w2 = cacheStore w1"
      using invoke_keeps_store[of h "selfCapture h" "console w1 Err"
          "[JStr ''Error loading source map:'', err]" w1] r by simp
    then show ?thesis using Inl ew r a by (simp add: loadSourceMap_body_def fin)
  qed
qed

text \<open>Running the loads of a list of distinct files, none of them in the memory cache:
  each promise is fulfilled with what a load of its file alone would give.\<close>

lemma fold_body_settles:
  assumes "distinct (map snd ls)"
    and "opts w = opts w0"
    and "\<forall>(p, u)\<in>set ls. map_of (sourceMapCache w0) u = None \<and>
           map_of (cacheStore w) (cacheKey (opts w0), mapUrl u)
             = map_of (cacheStore w0) (cacheKey (opts w0), mapUrl u)"
  shows "settledLoads (fold (\<lambda>(p, fileUrl). loadSourceMap_body h p fileUrl) ls w)
           = settledLoads w @ map (\<lambda>(p, u). (p, Fulfilled (resolution h w0 u))) ls \<and>
         originalMethods (fold (\<lambda>(p, fileUrl). loadSourceMap_body h p fileUrl) ls w)
           = originalMethods w"
  using assms
proof (induction ls arbitrary: w)
  case Nil
  show ?case by simp
next
  case (Cons a ls)
  obtain p u where a: "a = (p, u)" by (cases a)
  let ?w1 = "loadSourceMap_body h p u w"
  have miss: "map_of (sourceMapCache w0) u = None"
    and st: "map_of (cacheStore w) (cacheKey (opts w0), mapUrl u)
             = map_of (cacheStore w0) (cacheKey (opts w0), mapUrl u)"
    using Cons.prems(3) a by auto
  have res: "try_consumer (loadSourceMap_try h u w) = resolution h w0 u"
    using try_consumer_cong[of w w0 u h] Cons.prems(2) st miss by (simp add: resolution_def)
  have d: "distinct (map snd ls)" and nu: "\<forall>(q, v)\<in>set ls. v \<noteq> u"
    using Cons.prems(1) a by (auto simp: image_iff)
  have o1: "opts ?w1 = opts w0" using Cons.prems(2) by (simp add: body_keeps)
  have s1: "\<forall>(q, v)\<in>set ls. map_of (sourceMapCache w0) v = None \<and>
           map_of (cacheStore ?w1) (cacheKey (opts w0), mapUrl v)
             = map_of (cacheStore w0) (cacheKey (opts w0), mapUrl v)"
  proof (clarify, intro conjI)
    fix q v assume qv: "(q, v) \<in> set ls"
    then have "v \<noteq> u" using nu by auto
    then have "map_of (cacheStore ?w1) (cacheKey (opts w0), mapUrl v)
        = map_of (cacheStore w) (cacheKey (opts w0), mapUrl v)"
      by (rule body_store_other)
    moreover have "map_of (sourceMapCache w0) v = None \<and>
        map_of (cacheStore w) (cacheKey (opts w0), mapUrl v)
          = map_of (cacheStore w0) (cacheKey (opts w0), mapUrl v)"
      using Cons.prems(3) qv by auto
    ultimately show "map_of (sourceMapCache w0) v = None"
      and "map_of (cacheStore ?w1) (cacheKey (opts w0), mapUrl v)
             = map_of (cacheStore w0) (cacheKey (opts w0), mapUrl v)"
      by simp_all
  qed
  from Cons.IH[OF d o1 s1] show ?case
    using a res by (simp add: body_settles body_keeps)
qed

lemma update_fresh: "map_of al k = None \<Longrightarrow> AList.update k v al = al @ [(k, v)]"
  by (induction al) (auto split: if_splits)

lemma wait_ok_mono: "wait_ok h w0 P ent wt \<Longrightarrow> extends P P' \<Longrightarrow> wait_ok h w0 P' ent wt"
  by (auto simp: wait_ok_def extends_def split: option.splits if_splits)

lemma extends_refl: "extends P P"
  by (simp add: extends_def)

lemma extends_trans: "extends P P' \<Longrightarrow> extends P' P'' \<Longrightarrow> extends P P''"
  by (simp add: extends_def)

lemma loadSourceMap_phase1:
  assumes "phase1 w0 w"
  shows "phase1 w0 (snd (loadSourceMap u w)) \<and>
         extends (pendingSourceMaps w) (pendingSourceMaps (snd (loadSourceMap u w))) \<and>
         (case map_of (sourceMapCache w0) u of
            Some c \<Rightarrow> fst (loadSourceMap u w) = Hit c
          | None \<Rightarrow> (\<exists>p. fst (loadSourceMap u w) = Promise p \<and>
                        map_of (pendingSourceMaps (snd (loadSourceMap u w))) u = Some p))"
proof (cases "map_of (sourceMapCache w0) u")
  case (Some c)
  then have "loadSourceMap u w = (Hit c, w)" using assms by (simp add: loadSourceMap_def phase1_def)
  then show ?thesis using assms Some by (simp add: extends_refl)
next
  case None
  show ?thesis
  proof (cases "map_of (pendingSourceMaps w) u")
    case (Some p)
    then have "loadSourceMap u w = (Promise p, w)"
      using assms None by (simp add: loadSourceMap_def phase1_def)
    then show ?thesis using assms None Some by (simp add: extends_refl)
  next
    case pn: None
    let ?w1 = "w\<lparr>pendingSourceMaps := pendingSourceMaps w @ [(u, nextId w)],
        loads := loads w @ [(nextId w, u)], nextId := Suc (nextId w)\<rparr>"
    have l: "loadSourceMap u w = (Promise (nextId w), ?w1)"
      using assms None pn by (simp add: loadSourceMap_def phase1_def update_fresh)
    have nu: "u \<notin> fst ` set (pendingSourceMaps w)" using pn by (simp add: map_of_eq_None_iff)
    have np: "nextId w \<notin> snd ` set (pendingSourceMaps w)"
      using assms by (auto simp: phase1_def)
    have p1: "phase1 w0 ?w1"
      using assms None nu np by (auto simp: phase1_def)
    have ex: "extends (pendingSourceMaps w) (pendingSourceMaps ?w1)"
      by (auto simp: extends_def)
    have m: "map_of (pendingSourceMaps ?w1) u = Some (nextId w)"
      using pn by (simp add: map_add_def)
    show ?thesis using l p1 ex m None by simp
  qed
qed

lemma start_phase1:
  assumes "phase1 w0 w"
  shows "phase1 w0 (snd (getOriginalLocation_start h (stack ent) w)) \<and>
         extends (pendingSourceMaps w) (pendingSourceMaps (snd (getOriginalLocation_start h (stack ent) w))) \<and>
         wait_ok h w0 (pendingSourceMaps (snd (getOriginalLocation_start h (stack ent) w))) ent
           (fst (getOriginalLocation_start h (stack ent) w))"
proof -
  have en: "sourceMapEnabled (opts w) = sourceMapEnabled (opts w0)"
    using assms by (simp add: phase1_def)
  show ?thesis
  proof (cases "sourceMapEnabled (opts w0)")
    case False
    then show ?thesis using assms en
      by (simp add: getOriginalLocation_start_def wait_ok_def extends_refl)
  next
    case True
    show ?thesis
    proof (cases "stack ent")
      case None
      then show ?thesis using assms en True
        by (simp add: getOriginalLocation_start_def wait_ok_def extends_refl)
    next
      case (Some fr)
      show ?thesis
      proof (cases "frameMatch h fr")
        case None
        then show ?thesis using assms en True Some
          by (simp add: getOriginalLocation_start_def wait_ok_def extends_refl)
      next
        case m: (Some t)
        obtain fnName u ln col where t: "t = (fnName, u, ln, col)" by (cases t) auto
        obtain pr w1 where l: "loadSourceMap u w = (pr, w1)" by (cases "loadSourceMap u w")
        have g: "getOriginalLocation_start h (stack ent) w = (Awaiting fr fnName ln col pr, w1)"
          using en True Some m t l by (simp add: getOriginalLocation_start_def)
        from loadSourceMap_phase1[OF assms, of u] l
        have a: "phase1 w0 w1" and b: "extends (pendingSourceMaps w) (pendingSourceMaps w1)"
          and c: "(case map_of (sourceMapCache w0) u of
            Some c \<Rightarrow> pr = Hit c
          | None \<Rightarrow> (\<exists>p. pr = Promise p \<and> map_of (pendingSourceMaps w1) u = Some p))"
          by (simp_all split: option.splits)
        have "wait_ok h w0 (pendingSourceMaps w1) ent (Awaiting fr fnName ln col pr)"
          using True Some m t c by (auto simp: wait_ok_def split: option.splits)
        then show ?thesis using g a b by simp
      qed
    qed
  qed
qed

lemma start_batch_phase1:
  assumes "phase1 w0 w"
  shows "phase1 w0 (snd (start_batch h batch w)) \<and>
         extends (pendingSourceMaps w) (pendingSourceMaps (snd (start_batch h batch w))) \<and>
         map fst (fst (start_batch h batch w)) = batch \<and>
         (\<forall>(ent, wt)\<in>set (fst (start_batch h batch w)).
            wait_ok h w0 (pendingSourceMaps (snd (start_batch h batch w))) ent wt)"
  using assms
proof (induction batch arbitrary: w)
  case Nil
  then show ?case by (simp add: extends_refl)
next
  case (Cons ent rest)
  obtain wt w1 where a: "getOriginalLocation_start h (stack ent) w = (wt, w1)"
    by (cases "getOriginalLocation_start h (stack ent) w")
  obtain waits w2 where b: "start_batch h rest w1 = (waits, w2)"
    by (cases "start_batch h rest w1")
  from start_phase1[OF Cons.prems, of h ent] a
  have p1: "phase1 w0 w1" and e1: "extends (pendingSourceMaps w) (pendingSourceMaps w1)"
    and k1: "wait_ok h w0 (pendingSourceMaps w1) ent wt" by simp_all
  from Cons.IH[OF p1] b
  have p2: "phase1 w0 w2" and e2: "extends (pendingSourceMaps w1) (pendingSourceMaps w2)"
    and f2: "map fst waits = rest"
    and k2: "\<forall>(e, t)\<in>set waits. wait_ok h w0 (pendingSourceMaps w2) e t" by simp_all
  have "wait_ok h w0 (pendingSourceMaps w2) ent wt" by (rule wait_ok_mono[OF k1 e2])
  then show ?case using a b p2 f2 k2 extends_trans[OF e1 e2] by simp
qed

lemma location_of_settled: "location_of h w0 ent \<noteq> Unsettled"
  by (auto simp: location_of_def of_resume_def split: option.splits sum.splits prod.splits)

lemma resolve_wait_ok:
  assumes "wait_ok h w0 P ent wt"
    and "\<forall>u p. map_of P u = Some p \<longrightarrow>
           map_of (settledLoads v) p = Some (Fulfilled (resolution h w0 u))"
  shows "resolve_wait h wt v = location_of h w0 ent"
proof (cases "sourceMapEnabled (opts w0)")
  case False
  then show ?thesis using assms(1) by (simp add: wait_ok_def location_of_def resolve_wait_def)
next
  case True
  show ?thesis
  proof (cases "stack ent")
    case None
    then show ?thesis using assms(1) True
      by (simp add: wait_ok_def location_of_def resolve_wait_def)
  next
    case (Some fr)
    show ?thesis
    proof (cases "frameMatch h fr")
      case None
      then show ?thesis using assms(1) True Some
        by (simp add: wait_ok_def location_of_def resolve_wait_def frame_value_def)
    next
      case m: (Some t)
      obtain fnName u ln col where t: "t = (fnName, u, ln, col)" by (cases t) auto
      show ?thesis
      proof (cases "map_of (sourceMapCache w0) u")
        case (Some c)
        then show ?thesis using assms(1) True \<open>stack ent = Some fr\<close> m t
          by (simp add: wait_ok_def location_of_def resolve_wait_def resolution_def)
      next
        case None
        then obtain p where wt: "wt = Awaiting fr fnName ln col (Promise p)"
          and mp: "map_of P u = Some p"
          using assms(1) True \<open>stack ent = Some fr\<close> m t by (auto simp: wait_ok_def)
        have "map_of (settledLoads v) p = Some (Fulfilled (resolution h w0 u))"
          using assms(2) mp by blast
        then show ?thesis using wt True \<open>stack ent = Some fr\<close> m t
          by (simp add: location_of_def resolve_wait_def)
      qed
    qed
  qed
qed

lemma entry_end_native:
  assumes "map_of (originalMethods v) (method_of ent) = Some (Native k)"
    and "originalMethods v = originalMethods w0"
    and "resolve_wait h wt v = location_of h w0 ent"
  shows "processLogEntry_end h ent wt v = Some (Returns (v\<lparr>out := out v @ [emission h w0 ent]\<rparr>))"
proof -
  have n: "native_of w0 (method_of ent) = k" using assms(1,2) by (simp add: native_of_def)
  show ?thesis
  proof (cases "location_of h w0 ent")
    case (Located loc)
    then show ?thesis using assms n
      by (simp add: processLogEntry_end_def processLogEntry_resume_def applyOriginal_def emission_def)
  next
    case (Failed err)
    then show ?thesis using assms n
      by (simp add: processLogEntry_end_def processLogEntry_resume_def applyOriginal_def emission_def)
  next
    case Unsettled
    then show ?thesis using location_of_settled by blast
  qed
qed

lemma resume_batch_native:
  assumes "\<forall>m. \<exists>k. map_of (originalMethods w0) m = Some (Native k)"
    and "originalMethods v = originalMethods w0"
    and "\<forall>(ent, wt)\<in>set waits. \<forall>x. settledLoads x = settledLoads v \<longrightarrow>
            resolve_wait h wt x = location_of h w0 ent"
  shows "resume_batch h waits v = ([], False, v\<lparr>out := out v @ map (emission h w0) (map fst waits)\<rparr>)"
  using assms(2,3)
proof (induction waits arbitrary: v)
  case Nil
  show ?case by simp
next
  case (Cons a waits)
  obtain ent wt where a: "a = (ent, wt)" by (cases a)
  obtain k where k: "map_of (originalMethods w0) (method_of ent) = Some (Native k)"
    using assms(1) by blast
  have r: "resolve_wait h wt v = location_of h w0 ent" using Cons.prems(2) a by simp
  let ?v1 = "v\<lparr>out := out v @ [emission h w0 ent]\<rparr>"
  have e: "processLogEntry_end h ent wt v = Some (Returns ?v1)"
    using entry_end_native[of v ent k w0 h wt] k Cons.prems(1) r by simp
  have o1: "originalMethods ?v1 = originalMethods w0" using Cons.prems(1) by simp
  have s1: "\<forall>(ent, wt)\<in>set waits. \<forall>x. settledLoads x = settledLoads ?v1 \<longrightarrow>
            resolve_wait h wt x = location_of h w0 ent"
    using Cons.prems(2) by simp
  from Cons.IH[OF o1 s1] show ?case using a e by simp
qed

lemma map_of_swapped:
  "distinct (map snd P) \<Longrightarrow> (u, p) \<in> set P \<Longrightarrow>
   map_of (map (\<lambda>(p, u). (p, f u)) (map (\<lambda>(u, p). (p, u)) P)) p = Some (f u)"
  by (induction P) (auto simp: image_iff)

lemma finally_keeps_out: "out (async_world (processQueue_finally h w)) = out w"
  by (simp add: processQueue_finally_def Let_def scheduleQueueProcessing_def)

lemma processQueue_rest_native:
  assumes reg: "\<forall>m. \<exists>k. map_of (originalMethods w) m = Some (Native k)"
    and pe: "pendingSourceMaps w = []" and le: "loads w = []"
    and fresh: "\<forall>p\<in>fst ` set (settledLoads w). p < nextId w"
  shows "processQueue_rest h batch w =
           processQueue_finally h
             ((run_loads h (snd (start_batch h batch w)))
                \<lparr>out := out (run_loads h (snd (start_batch h batch w))) @ map (emission h w) batch\<rparr>)"
proof -
  obtain waits w1 where sb: "start_batch h batch w = (waits, w1)" by (cases "start_batch h batch w")
  have p0: "phase1 w w" using pe le by (simp add: phase1_def)
  from start_batch_phase1[OF p0, of h batch] sb
  have p1: "phase1 w w1" and fw: "map fst waits = batch"
    and ok: "\<forall>(ent, wt)\<in>set waits. wait_ok h w (pendingSourceMaps w1) ent wt"
    by simp_all
  let ?P = "pendingSourceMaps w1"
  let ?w2 = "run_loads h w1"
  have l1: "loads w1 = map (\<lambda>(u, p). (p, u)) ?P" and dp: "distinct (map snd ?P)"
    and du: "distinct (map fst ?P)" and o1: "opts w1 = opts w" and cs1: "cacheStore w1 = cacheStore w"
    and s1: "settledLoads w1 = settledLoads w" and om1: "originalMethods w1 = originalMethods w"
    and rng: "\<forall>(u, p)\<in>set ?P. nextId w \<le> p \<and> p < nextId w1 \<and> map_of (sourceMapCache w) u = None"
    using p1 by (simp_all add: phase1_def)
  have dl: "distinct (map snd (loads w1))"
    using du l1 by (simp add: comp_def case_prod_unfold)
  have pre: "\<forall>(p, u)\<in>set (loads w1). map_of (sourceMapCache w) u = None \<and>
           map_of (cacheStore w1) (cacheKey (opts w), mapUrl u)
             = map_of (cacheStore w) (cacheKey (opts w), mapUrl u)"
    using rng l1 cs1 by auto
  from fold_body_settles[OF dl o1 pre, of h]
  have s2: "settledLoads ?w2 = settledLoads w @
              map (\<lambda>(p, u). (p, Fulfilled (resolution h w u))) (map (\<lambda>(u, p). (p, u)) ?P)"
    and om2: "originalMethods ?w2 = originalMethods w"
    using s1 om1 l1 by (simp_all add: run_loads_def)
  have look: "map_of (settledLoads ?w2) p = Some (Fulfilled (resolution h w u))"
    if "map_of ?P u = Some p" for u p
  proof -
    have mem: "(u, p) \<in> set ?P" using that by (rule map_of_SomeD)
    then have "nextId w \<le> p" using rng by auto
    then have "p \<notin> fst ` set (settledLoads w)" using fresh by auto
    then have "map_of (settledLoads w) p = None" by (simp add: map_of_eq_None_iff)
    then show ?thesis
      using s2 map_of_swapped[OF dp mem, of "\<lambda>u. Fulfilled (resolution h w u)"]
      by (simp add: map_add_def)
  qed
  have rw: "\<forall>(ent, wt)\<in>set waits. \<forall>x. settledLoads x = settledLoads ?w2 \<longrightarrow>
            resolve_wait h wt x = location_of h w ent"
  proof (clarify)
    fix ent wt and x :: world
    assume m: "(ent, wt) \<in> set waits" and sx: "settledLoads x = settledLoads ?w2"
    have k: "wait_ok h w ?P ent wt" using ok m by auto
    show "resolve_wait h wt x = location_of h w ent"
    proof (rule resolve_wait_ok[OF k])
      show "\<forall>u p. map_of ?P u = Some p \<longrightarrow>
           map_of (settledLoads x) p = Some (Fulfilled (resolution h w u))"
        using look sx by simp
    qed
  qed
  from resume_batch_native[OF reg om2 rw]
  have rb: "resume_batch h waits ?w2 = ([], False, ?w2\<lparr>out := out ?w2 @ map (emission h w) batch\<rparr>)"
    using fw by simp
  show ?thesis using sb rb by (simp add: processQueue_rest_def)
qed

lemma enhanced_page_natives:
  "\<forall>m. \<exists>k. map_of (originalMethods enhanced_page) m = Some (Native k)"
proof
  fix m
  show "\<exists>k. map_of (originalMethods enhanced_page) m = Some (Native k)"
    by (cases m) (simp_all add: enhanced_page_record)
qed

lemma mixed_emissions:
  "resolution browser enhanced_page ''lib.js'' = None"
  "emission browser enhanced_page missing_map_entry
     = (0, [JStr ''x'', JStr (CHR 0x0A # ''at g (lib.js:3:4)'')])"
  "emission browser enhanced_page mapped_entry
     = (1, [JStr ''y'', JStr (CHR 0x0A # ''    at f (app.ts:12:7)'')])"
  by (simp_all add: emission_def native_of_def location_of_def resolution_def try_consumer_def
      loadSourceMap_try_def loadFromNetwork_def Let_def mapUrl_def of_resume_def
      getOriginalLocation_resume_def enhancedArgs_def lastArg_def newline_plus_def
      missing_map_entry_def mapped_entry_def enhanced_page_record browser_def default_options_def)

lemma mixed_loads_out:
  "out (run_loads browser (snd (start_batch browser [missing_map_entry, mapped_entry] enhanced_page))) = []"
  by (simp add: run_loads_def getOriginalLocation_start_def loadSourceMap_def
      loadSourceMap_body_def loadSourceMap_try_def loadFromNetwork_def loadSourceMap_finally_def
      Let_def mapUrl_def scheduleQueueProcessing_def
      missing_map_entry_def mapped_entry_def enhanced_page_record browser_def default_options_def
      host_console_def)




lemma same_loads_refl: "same_loads w w"
  by (simp add: same_loads_def)

lemma same_loads_trans: "same_loads w w1 \<Longrightarrow> same_loads w1 w2 \<Longrightarrow> same_loads w w2"
  by (simp add: same_loads_def)

lemma same_loads_invoke: "same_loads w (world_of (invoke h cap f xs w))"
proof (induction f arbitrary: xs w)
  case (Native k)
  show ?case by (simp add: same_loads_def)
next
  case (Wrapper original m)
  obtain w1 where r: "invoke h cap original (xs @ [queue_full_marker]) w = Returns w1"
    using invoke_returns by blast
  have a: "same_loads w w1"
    using Wrapper.IH[of w "xs @ [queue_full_marker]"] r by simp
  show ?case
  proof (cases cap)
    case StackThrows
    then show ?thesis using Wrapper.IH[of w xs] by simp
  next
    case (StackLine st)
    let ?w1 = "w\<lparr>logQueue := logQueue w @ [\<lparr>method_of = m, args = xs, stack = st\<rparr>]\<rparr>"
    show ?thesis
    proof (cases "maxQueueSize (opts w) \<le> int (length (logQueue w))")
      case True
      then show ?thesis using StackLine r a by simp
    next
      case False
      then show ?thesis using StackLine Wrapper.IH[of ?w1 xs]
        by (simp add: scheduleQueueProcessing_def same_loads_def)
    qed
  qed
qed

lemma same_loads_try: "same_loads w (try_world (loadSourceMap_try h u w))"
  by (auto simp: same_loads_def try_world_def loadSourceMap_try_def loadFromNetwork_def Let_def
      split: option.splits response.splits)

text \<open>A load body changes the pending loads only by its \<^verbatim>\<open>finally\<close> block.\<close>

lemma body_loads:
  "pendingSourceMaps (loadSourceMap_body h p u w) = AList.delete u (pendingSourceMaps w)"
  "loads (loadSourceMap_body h p u w) = removeAll (p, u) (loads w)"
  "nextId (loadSourceMap_body h p u w) = nextId w"
proof -
  have "pendingSourceMaps (loadSourceMap_body h p u w) = AList.delete u (pendingSourceMaps w) \<and>
        loads (loadSourceMap_body h p u w) = removeAll (p, u) (loads w) \<and>
        nextId (loadSourceMap_body h p u w) = nextId w"
  proof (cases "loadSourceMap_try h u w")
    case (Inr cw)
    obtain c w1 where cw: "cw = (c, w1)" by (cases cw)
    have "same_loads w w1" using same_loads_try[of w h u] Inr cw by (simp add: try_world_def)
    then show ?thesis using Inr cw
      by (simp add: loadSourceMap_body_def loadSourceMap_finally_def same_loads_def)
  next
    case (Inl ew)
    obtain err w1 where ew: "ew = (err, w1)" by (cases ew)
    have a: "same_loads w w1" using same_loads_try[of w h u] Inl ew by (simp add: try_world_def)
    obtain w2 where r: "invoke h (selfCapture h) (console w1 Err)
                  [JStr ''Error loading source map:'', err] w1 = Returns w2"
      using invoke_returns by blast
    have "same_loads w1 w2"
      using same_loads_invoke[of w1 h "selfCapture h" "console w1 Err"
          "[JStr ''Error loading source map:'', err]"] r by simp
    then have "same_loads w w2" using a by (rule same_loads_trans[rotated])
    then show ?thesis using Inl ew r
      by (simp add: loadSourceMap_body_def loadSourceMap_finally_def same_loads_def)
  qed
  then show "pendingSourceMaps (loadSourceMap_body h p u w) = AList.delete u (pendingSourceMaps w)"
    "loads (loadSourceMap_body h p u w) = removeAll (p, u) (loads w)"
    "nextId (loadSourceMap_body h p u w) = nextId w"
    by simp_all
qed

lemma fold_body_loads:
  "fst ` set (pendingSourceMaps (fold (\<lambda>(p, fileUrl). loadSourceMap_body h p fileUrl) ls w))
     = fst ` set (pendingSourceMaps w) - snd ` set ls \<and>
   set (loads (fold (\<lambda>(p, fileUrl). loadSourceMap_body h p fileUrl) ls w)) = set (loads w) - set ls \<and>
   nextId (fold (\<lambda>(p, fileUrl). loadSourceMap_body h p fileUrl) ls w) = nextId w"
proof (induction ls arbitrary: w)
  case Nil
  show ?case by simp
next
  case (Cons a ls)
  obtain p u where a: "a = (p, u)" by (cases a)
  have d: "fst ` set (AList.delete u (pendingSourceMaps w)) = fst ` set (pendingSourceMaps w) - {u}"
    by (auto simp: AList.delete_eq image_iff)
  show ?case using Cons.IH[of "loadSourceMap_body h p u w"] a d
    by (auto simp: body_loads)
qed

lemma same_loads_applyOriginal: "same_loads w (world_of (applyOriginal h m xs w))"
  by (simp add: applyOriginal_def same_loads_invoke same_loads_refl split: option.splits)

lemma same_loads_resume: "same_loads w (world_of (processLogEntry_resume h ent loc w))"
proof (cases loc)
  case (Inl err)
  then show ?thesis by (simp add: processLogEntry_resume_def same_loads_applyOriginal)
next
  case (Inr l)
  show ?thesis
  proof (cases "applyOriginal h (method_of ent) (enhancedArgs (args ent) l) w")
    case (Returns w1)
    then show ?thesis
      using Inr same_loads_applyOriginal[of w h "method_of ent" "enhancedArgs (args ent) l"]
      by (simp add: processLogEntry_resume_def)
  next
    case (Throws err w1)
    have "same_loads w w1"
      using Throws same_loads_applyOriginal[of w h "method_of ent" "enhancedArgs (args ent) l"] by simp
    then show ?thesis using Inr Throws same_loads_applyOriginal[of w1 h "method_of ent" "args ent"]
      by (auto simp: processLogEntry_resume_def intro: same_loads_trans)
  qed
qed

lemma same_loads_resume_batch: "same_loads w (snd (snd (resume_batch h waits w)))"
proof (induction waits arbitrary: w)
  case Nil
  show ?case by (simp add: same_loads_refl)
next
  case (Cons a waits)
  obtain ent wt where a: "a = (ent, wt)" by (cases a)
  show ?case
  proof (cases "processLogEntry_end h ent wt w")
    case None
    then show ?thesis using a Cons.IH[of w] by (auto split: prod.splits)
  next
    case (Some r)
    have e: "same_loads w (world_of r)"
      using Some by (auto simp: processLogEntry_end_def same_loads_resume split: located.splits)
    show ?thesis
    proof (cases r)
      case (Returns w1)
      then show ?thesis using a Some e Cons.IH[of w1] by (auto intro: same_loads_trans)
    next
      case (Throws err w1)
      then show ?thesis using a Some e Cons.IH[of w1]
        by (auto split: prod.splits intro: same_loads_trans)
    qed
  qed
qed

lemma same_loads_finally: "same_loads w (async_world (processQueue_finally h w))"
  by (auto simp: processQueue_finally_def Let_def scheduleQueueProcessing_def same_loads_def)

lemma fold_body_settled_keys:
  "fst ` set (settledLoads (fold (\<lambda>(p, fileUrl). loadSourceMap_body h p fileUrl) ls w))
     = fst ` set (settledLoads w) \<union> fst ` set ls"
proof (induction ls arbitrary: w)
  case Nil
  show ?case by simp
next
  case (Cons a ls)
  obtain p u where a: "a = (p, u)" by (cases a)
  show ?case using Cons.IH[of "loadSourceMap_body h p u w"] a
    by (auto simp: body_settles)
qed

lemma between_same_loads: "between_batches w \<Longrightarrow> same_loads w w' \<Longrightarrow> between_batches w'"
  by (simp add: between_batches_def same_loads_def)

lemma between_rest:
  assumes "between_batches w"
  shows "between_batches (async_world (processQueue_rest h batch w))"
proof -
  obtain waits w1 where sb: "start_batch h batch w = (waits, w1)" by (cases "start_batch h batch w")
  have p0: "phase1 w w" using assms by (simp add: phase1_def between_batches_def)
  from start_batch_phase1[OF p0, of h batch] sb have p1: "phase1 w w1" by simp
  let ?P = "pendingSourceMaps w1"
  let ?w2 = "run_loads h w1"
  have l1: "loads w1 = map (\<lambda>(u, p). (p, u)) ?P" and s1: "settledLoads w1 = settledLoads w"
    and n1: "nextId w \<le> nextId w1"
    and rng: "\<forall>(u, p)\<in>set ?P. nextId w \<le> p \<and> p < nextId w1 \<and> map_of (sourceMapCache w) u = None"
    using p1 by (simp_all add: phase1_def)
  have sl: "snd ` set (loads w1) = fst ` set ?P"
    unfolding l1 by (force simp: image_iff)
  have fl: "fst ` set (loads w1) = snd ` set ?P"
    unfolding l1 by (force simp: image_iff)
  from fold_body_loads[of h "loads w1" w1]
  have a: "pendingSourceMaps ?w2 = []" and b: "loads ?w2 = []" and c: "nextId ?w2 = nextId w1"
    using sl by (simp_all add: run_loads_def)
  have "fst ` set (settledLoads ?w2) = fst ` set (settledLoads w) \<union> snd ` set ?P"
    using fold_body_settled_keys[of h "loads w1" w1] s1 fl by (simp add: run_loads_def)
  moreover have "\<forall>p\<in>snd ` set ?P. p < nextId w1" using rng by auto
  moreover have "\<forall>p\<in>fst ` set (settledLoads w). p < nextId w1"
    using assms n1 by (auto simp: between_batches_def)
  ultimately have d: "\<forall>p\<in>fst ` set (settledLoads ?w2). p < nextId ?w2" using c by auto
  have bw2: "between_batches ?w2" using a b d by (simp add: between_batches_def)
  obtain errs hung w3 where rb: "resume_batch h waits ?w2 = (errs, hung, w3)"
    by (cases "resume_batch h waits ?w2")
  have bw3: "between_batches w3"
    using between_same_loads[OF bw2 same_loads_resume_batch[of ?w2 h waits]] rb by simp
  show ?thesis
  proof (cases errs)
    case Nil
    then show ?thesis
      using sb rb bw3 between_same_loads[OF bw3 same_loads_finally[of w3 h]]
      by (simp add: processQueue_rest_def)
  next
    case (Cons err es)
    obtain w4 where r: "invoke h (selfCapture h) (console w3 Err)
                     [JStr ''Error processing log queue:'', err] w3 = Returns w4"
      using invoke_returns by blast
    have "between_batches w4"
      using between_same_loads[OF bw3 same_loads_invoke[of w3 h "selfCapture h" "console w3 Err"
            "[JStr ''Error processing log queue:'', err]"]] r by simp
    then have "between_batches (async_world (processQueue_finally h w4))"
      using between_same_loads same_loads_finally by blast
    then show ?thesis using sb rb Cons r by (simp add: processQueue_rest_def)
  qed
qed

lemma between_step:
  assumes "between_batches w" and "ev \<noteq> Cleanup"
  shows "between_batches (step h ev w)"
proof (cases ev)
  case (Call m xs cap)
  then show ?thesis using between_same_loads[OF assms(1) same_loads_invoke] by simp
next
  case Tick
  then show ?thesis using assms(1)
    by (auto simp: begin_task_def processQueue_begin_def between_batches_def)
next
  case RunTask
  then show ?thesis using assms(1)
    by (auto simp: begin_task_def processQueue_begin_def between_batches_def split: list.splits)
next
  case Settle
  show ?thesis
  proof (cases "inFlight w")
    case Nil
    then show ?thesis using Settle assms(1) by simp
  next
    case (Cons b bs)
    have "between_batches (w\<lparr>inFlight := bs\<rparr>)" using assms(1) by (simp add: between_batches_def)
    then show ?thesis using Settle Cons by (simp add: between_rest)
  qed
next
  case Enhance
  have "pendingSourceMaps (fold enhance_method ms w) = pendingSourceMaps w \<and>
        loads (fold enhance_method ms w) = loads w \<and>
        settledLoads (fold enhance_method ms w) = settledLoads w \<and>
        nextId (fold enhance_method ms w) = nextId w" for ms
    by (induction ms arbitrary: w) (simp_all add: enhance_method_def)
  then show ?thesis using Enhance assms(1)
    by (auto simp: enhance_def setupInterval_def between_batches_def)
next
  case Cleanup
  then show ?thesis using assms(2) by simp
qed

lemma between_run:
  "between_batches w \<Longrightarrow> Cleanup \<notin> set evs \<Longrightarrow> between_batches (run h evs w)"
proof (induction evs arbitrary: w)
  case Nil
  then show ?case by (simp add: run_def)
next
  case (Cons ev evs)
  have "between_batches (step h ev w)" using between_step Cons.prems by auto
  then have "between_batches (run h evs (step h ev w))" using Cons.IH Cons.prems(2) by simp
  then show ?case by (simp add: run_def)
qed

text \<open>The conditions under which the batch theorem is stated hold whenever a batch is
  started in a run that began with \<open>enhance\<close> on a console of native functions.\<close>

lemma batch_start_conditions:
  assumes "\<forall>m. \<exists>k. c m = Native k" and "Enhance \<notin> set evs" and "Cleanup \<notin> set evs"
    and "w = run h evs (enhance (AsyncConsoleEnhancer os c cs))"
  shows "(\<forall>m. \<exists>k. map_of (originalMethods w) m = Some (Native k)) \<and>
         pendingSourceMaps w = [] \<and> loads w = [] \<and>
         (\<forall>p\<in>fst ` set (settledLoads w). p < nextId w)"
proof -
  let ?start = "enhance (AsyncConsoleEnhancer os c cs)"
  have "between_batches (AsyncConsoleEnhancer os c cs)"
    by (simp add: between_batches_def AsyncConsoleEnhancer_def)
  then have "between_batches ?start"
    using between_step[of "AsyncConsoleEnhancer os c cs" Enhance h] by simp
  then have b: "between_batches w" using between_run assms(3,4) by blast
  have "originalMethods w = originalMethods ?start"
    using evolves_run[OF assms(2,3), of ?start h] assms(4) by (simp add: evolves_def)
  then have om: "originalMethods w = [(Log, c Log), (Warn, c Warn), (Err, c Err), (Info, c Info), (Debug, c Debug)]"
    by (simp add: enhance_fresh)
  have "\<exists>k. map_of (originalMethods w) m = Some (Native k)" for m
    using assms(1) om by (cases m) simp_all
  then show ?thesis using b by (simp add: between_batches_def)
qed

end
